theory Spec2Isabelle
  imports Main "HOL-Library.Multiset"
begin

section \<open>Data model of pymaid/user\_stats.py\<close>

text \<open>
  User identifiers are the integer ids of the CATMAID user table. A timestamp is the
  integer a pandas Timestamp holds: nanoseconds since the epoch.
\<close>

type_synonym user_id = int
type_synonym timestamp = int

text \<open>
  One row of the frame returned by \<open>get_node_user_details\<close>: the creator and the
  editor of a node or connector with their times, and the parallel lists of reviewers and
  review times.
\<close>

record node_detail =
  user :: user_id
  creation_time :: timestamp
  editor :: user_id
  edition_time :: timestamp
  reviewers :: "user_id list"
  review_times :: "timestamp list"

text \<open>
  The exceptions the two functions can run into. \<open>KeyError\<close> is a failed label or
  dictionary lookup, \<open>ValueError\<close> a failed \<open>int(u)\<close>, \<open>TypeError\<close> the subscript of
  the plain \<open>0\<close> that \<open>sum\<close> returns for an empty frame. \<open>GrouperError\<close> stands for
  whatever pandas raises inside \<open>groupby\<close> for a bin width that is not positive; the
  function itself does not look at the sign of \<open>interval\<close>. \<open>OutOfBoundsDatetime\<close>
  is what pandas raises when the bin width or an edge of the bin range does not fit the
  64-bit nanosecond count of a timestamp.
\<close>

datatype error = KeyError | ValueError | TypeError | GrouperError | OutOfBoundsDatetime

text \<open>
  A row of the frame \<open>get_time_invested\<close> returns. \<open>index\<close> is the column that
  \<open>reset_index()\<close> adds: the position of the row before sorting. The column
  \<open>user\<close> holds the last name looked up in the user list.
\<close>

record time_row =
  index :: nat
  last_name :: string
  total :: int
  creation :: int
  edition :: int
  review :: int

text \<open>A row of the frame \<open>get_user_contributions\<close> returns.\<close>

record contribution_row =
  position :: nat
  contributor :: string
  nodes :: int
  presynapses :: int
  postsynapses :: int

section \<open>The three views and their concatenation\<close>

definition creation_timestamps :: "node_detail list \<Rightarrow> (user_id \<times> timestamp) list" where
  "creation_timestamps node_details = map (\<lambda>n. (user n, creation_time n)) node_details"

definition edition_timestamps :: "node_detail list \<Rightarrow> (user_id \<times> timestamp) list" where
  "edition_timestamps node_details = map (\<lambda>n. (editor n, edition_time n)) node_details"

text \<open>Both lists of lists are flattened, then zipped: \<open>zip\<close> stops at the shorter one.\<close>

definition review_timestamps :: "node_detail list \<Rightarrow> (user_id \<times> timestamp) list" where
  "review_timestamps node_details =
     zip (concat (map reviewers node_details)) (concat (map review_times node_details))"

definition all_timestamps :: "node_detail list \<Rightarrow> (user_id \<times> timestamp) list" where
  "all_timestamps node_details =
     creation_timestamps node_details @ edition_timestamps node_details
       @ review_timestamps node_details"

text \<open>\<open>Series.unique()\<close>: the distinct values in order of first appearance.\<close>

fun unique :: "'a list \<Rightarrow> 'a list" where
  "unique [] = []"
| "unique (x # xs) = x # unique (filter (\<lambda>y. y \<noteq> x) xs)"

text \<open>\<open>view[view.user == u].timestamp\<close>\<close>

definition user_timestamps :: "(user_id \<times> timestamp) list \<Rightarrow> user_id \<Rightarrow> timestamp list" where
  "user_timestamps view u = map snd (filter (\<lambda>r. fst r = u) view)"

section \<open>pandas.TimeGrouper with a frequency of whole minutes\<close>

text \<open>
  \<open>groupby(pd.TimeGrouper(freq = '<interval>Min')).count()\<close> is pandas code. For a tick
  frequency the grouper closes bins on the left, labels them by their left edge and
  anchors the edges at midnight of the day of the earliest timestamp of the frame it
  is given; the resulting frame has one row for every bin from the bin of the earliest
  to the bin of the latest timestamp, empty bins included with count 0.
\<close>

definition minute_nanos :: int where
  "minute_nanos = 60000000000"

definition day_nanos :: int where
  "day_nanos = 86400000000000"

definition normalize :: "timestamp \<Rightarrow> timestamp" where
  "normalize t = t - t mod day_nanos"

definition adjust_dates_anchored :: "timestamp \<Rightarrow> timestamp \<Rightarrow> int \<Rightarrow> timestamp \<times> timestamp" where
  "adjust_dates_anchored first_ts last_ts nanos =
     (let start_day_nanos = normalize first_ts;
          foffset = (first_ts - start_day_nanos) mod nanos;
          loffset = (last_ts - start_day_nanos) mod nanos;
          fresult = (if foffset > 0 then first_ts - foffset else first_ts);
          lresult = (if loffset > 0 then last_ts + (nanos - loffset) else last_ts + nanos)
      in (fresult, lresult))"

text \<open>The left edges of the bins between the two range edges.\<close>

definition bin_labels :: "timestamp \<Rightarrow> timestamp \<Rightarrow> int \<Rightarrow> timestamp list" where
  "bin_labels fresult lresult nanos =
     map (\<lambda>k. fresult + int k * nanos) [0..<nat ((lresult - fresult) div nanos)]"

definition bin_count :: "int \<Rightarrow> timestamp list \<Rightarrow> timestamp \<Rightarrow> int" where
  "bin_count nanos ts lo = int (length (filter (\<lambda>t. lo \<le> t \<and> t < lo + nanos) ts))"

definition time_grouper_labels :: "int \<Rightarrow> timestamp list \<Rightarrow> timestamp list" where
  "time_grouper_labels nanos ts =
     (case adjust_dates_anchored (Min (set ts)) (Max (set ts)) nanos of
        (fresult, lresult) \<Rightarrow> bin_labels fresult lresult nanos)"

definition time_grouper_count :: "int \<Rightarrow> timestamp list \<Rightarrow> int list" where
  "time_grouper_count nanos ts = map (bin_count nanos ts) (time_grouper_labels nanos ts)"

text \<open>
  \<open>sum(view[view.user == u]...count().values >= minimum_actions)[0] * interval\<close>: the
  number of rows of the count frame that reach \<open>minimum_actions\<close>, times \<open>interval\<close>.
\<close>

definition active_bins :: "int \<Rightarrow> int \<Rightarrow> timestamp list \<Rightarrow> nat" where
  "active_bins nanos minimum_actions ts =
     length (filter (\<lambda>c. c \<ge> minimum_actions) (time_grouper_count nanos ts))"

text \<open>
  A pandas timestamp or offset holds its nanoseconds in a signed 64-bit integer, whose
  least value is kept for \<open>NaT\<close>. The grouper makes an offset of the bin width and
  timestamps of the midnight it anchors at and of the two edges of the bin range, the
  closing edge lying up to one bin width after the latest timestamp.
\<close>

definition int64_max :: int where
  "int64_max = 9223372036854775807"

definition in_bounds :: "int \<Rightarrow> bool" where
  "in_bounds x \<longleftrightarrow> - int64_max \<le> x \<and> x \<le> int64_max"

definition grouper_in_bounds :: "int \<Rightarrow> timestamp list \<Rightarrow> bool" where
  "grouper_in_bounds nanos ts =
     (case adjust_dates_anchored (Min (set ts)) (Max (set ts)) nanos of
        (fresult, lresult) \<Rightarrow>
          in_bounds nanos \<and> in_bounds (normalize (Min (set ts)))
            \<and> in_bounds fresult \<and> in_bounds lresult)"

definition time_spent :: "int \<Rightarrow> int \<Rightarrow> timestamp list \<Rightarrow> error + int" where
  "time_spent interval minimum_actions ts =
     (if ts = [] then Inl TypeError
      else if interval \<le> 0 then Inl GrouperError
      else if \<not> grouper_in_bounds (interval * minute_nanos) ts then Inl OutOfBoundsDatetime
      else Inr (int (active_bins (interval * minute_nanos) minimum_actions ts) * interval))"

section \<open>get\_time\_invested\<close>

text \<open>\<open>{ u : 0 for u in users }\<close>\<close>

definition zero_stats :: "'k list \<Rightarrow> ('k \<rightharpoonup> int)" where
  "zero_stats users = map_of (map (\<lambda>u. (u, 0)) users)"

text \<open>
  One of the four loops \<open>for u in view.user.unique(): stats[..][u] += ...\<close>. The
  augmented assignment reads \<open>stats[..][u]\<close> before it evaluates the right-hand side.
\<close>

fun add_time :: "int \<Rightarrow> int \<Rightarrow> (user_id \<times> timestamp) list \<Rightarrow> user_id list
    \<Rightarrow> (user_id \<rightharpoonup> int) \<Rightarrow> error + (user_id \<rightharpoonup> int)" where
  "add_time interval minimum_actions view [] stats = Inr stats"
| "add_time interval minimum_actions view (u # us) stats =
     (case stats u of
        None \<Rightarrow> Inl KeyError
      | Some old \<Rightarrow>
          (case time_spent interval minimum_actions (user_timestamps view u) of
             Inl e \<Rightarrow> Inl e
           | Inr v \<Rightarrow> add_time interval minimum_actions view us (stats(u \<mapsto> old + v))))"

text \<open>
  The list comprehension of the return statement: one row per user of the concatenated
  view, in the order of \<open>unique()\<close>; each of the five lookups can raise \<open>KeyError\<close>.
\<close>

fun time_rows :: "(user_id \<rightharpoonup> string) \<Rightarrow> (user_id \<rightharpoonup> int) \<Rightarrow> (user_id \<rightharpoonup> int)
    \<Rightarrow> (user_id \<rightharpoonup> int) \<Rightarrow> (user_id \<rightharpoonup> int) \<Rightarrow> nat \<Rightarrow> user_id list
    \<Rightarrow> error + time_row list" where
  "time_rows user_list st_total st_creation st_edition st_review i [] = Inr []"
| "time_rows user_list st_total st_creation st_edition st_review i (u # us) =
     (case (user_list u, st_total u, st_creation u, st_edition u, st_review u) of
        (Some nm, Some t, Some c, Some e, Some r) \<Rightarrow>
          (case time_rows user_list st_total st_creation st_edition st_review (Suc i) us of
             Inl err \<Rightarrow> Inl err
           | Inr rows \<Rightarrow>
               Inr (\<lparr>index = i, last_name = nm, total = t, creation = c, edition = e,
                     review = r\<rparr> # rows))
      | _ \<Rightarrow> Inl KeyError)"

text \<open>
  The function takes what its two fetches return: the user list as a map from user id to
  last name, and the node details. \<open>sort_values\<close> is the library method
  \<open>DataFrame.sort_values(by, ascending)\<close>, a parameter of the model: its default
  algorithm (quicksort) promises an ordering by the column it is given and nothing about
  rows with equal keys. The function calls it with the column \<open>total\<close> and
  \<open>ascending = False\<close>.
\<close>

definition get_time_invested :: "((time_row \<Rightarrow> int) \<Rightarrow> bool \<Rightarrow> time_row list \<Rightarrow> time_row list)
    \<Rightarrow> (user_id \<rightharpoonup> string) \<Rightarrow> node_detail list \<Rightarrow> int \<Rightarrow> int
    \<Rightarrow> error + time_row list" where
  "get_time_invested sort_values user_list node_details interval minimum_actions =
     (let creation_ts = creation_timestamps node_details;
          edition_ts = edition_timestamps node_details;
          review_ts = review_timestamps node_details;
          all_ts = all_timestamps node_details;
          users = unique (map fst all_ts);
          zero = zero_stats users
      in case add_time interval minimum_actions all_ts users zero of
           Inl e \<Rightarrow> Inl e
         | Inr st_total \<Rightarrow>
        (case add_time interval minimum_actions creation_ts (unique (map fst creation_ts)) zero of
           Inl e \<Rightarrow> Inl e
         | Inr st_creation \<Rightarrow>
        (case add_time interval minimum_actions edition_ts (unique (map fst edition_ts)) zero of
           Inl e \<Rightarrow> Inl e
         | Inr st_edition \<Rightarrow>
        (case add_time interval minimum_actions review_ts (unique (map fst review_ts)) zero of
           Inl e \<Rightarrow> Inl e
         | Inr st_review \<Rightarrow>
        (case time_rows user_list st_total st_creation st_edition st_review 0 users of
           Inl e \<Rightarrow> Inl e
         | Inr rows \<Rightarrow> Inr (sort_values total False rows))))))"

text \<open>
  The figure a user ends up with for one view: the initial \<open>0\<close> when the user has no
  row in the view, else the \<open>0\<close> plus what the loop over the view adds.
\<close>

definition view_minutes :: "int \<Rightarrow> int \<Rightarrow> (user_id \<times> timestamp) list \<Rightarrow> user_id \<Rightarrow> int" where
  "view_minutes interval minimum_actions view u =
     (if u \<in> fst ` set view
      then int (active_bins (interval * minute_nanos) minimum_actions (user_timestamps view u))
             * interval
      else 0)"

definition all_users :: "node_detail list \<Rightarrow> user_id list" where
  "all_users node_details = unique (map fst (all_timestamps node_details))"

text \<open>
  The row of the user at position \<open>fst p\<close> with id \<open>snd p\<close>, when \<open>figure view u\<close>
  is what the user \<open>u\<close> is reported for the view.
\<close>

definition row_of :: "((user_id \<times> timestamp) list \<Rightarrow> user_id \<Rightarrow> int) \<Rightarrow> (user_id \<rightharpoonup> string)
    \<Rightarrow> node_detail list \<Rightarrow> nat \<times> user_id \<Rightarrow> time_row" where
  "row_of figure user_list node_details p =
     \<lparr>index = fst p,
      last_name = (case user_list (snd p) of Some nm \<Rightarrow> nm | None \<Rightarrow> []),
      total = figure (all_timestamps node_details) (snd p),
      creation = figure (creation_timestamps node_details) (snd p),
      edition = figure (edition_timestamps node_details) (snd p),
      review = figure (review_timestamps node_details) (snd p)\<rparr>"

definition unsorted_rows :: "(user_id \<rightharpoonup> string) \<Rightarrow> node_detail list \<Rightarrow> int \<Rightarrow> int
    \<Rightarrow> time_row list" where
  "unsorted_rows user_list node_details interval minimum_actions =
     map (row_of (view_minutes interval minimum_actions) user_list node_details)
       (enumerate 0 (all_users node_details))"

text \<open>
  What the library promises of \<open>sort_values(by, ascending)\<close> for every column and
  either direction: the same rows, in an order in which the key never decreases, or
  never increases when \<open>ascending\<close> is false.
\<close>

definition sorts_by_key :: "(('r \<Rightarrow> int) \<Rightarrow> bool \<Rightarrow> 'r list \<Rightarrow> 'r list) \<Rightarrow> bool" where
  "sorts_by_key sort_values \<longleftrightarrow>
     (\<forall>key ascending rows.
        mset (sort_values key ascending rows) = mset rows
        \<and> sorted_wrt (\<lambda>a b. if ascending then key a \<le> key b else key b \<le> key a)
            (sort_values key ascending rows))"

text \<open>The same promise for one call with \<open>ascending = False\<close>.\<close>

definition sorts_descending :: "('r \<Rightarrow> int) \<Rightarrow> ('r list \<Rightarrow> 'r list) \<Rightarrow> bool" where
  "sorts_descending key sorted_rows \<longleftrightarrow>
     (\<forall>rows. mset (sorted_rows rows) = mset rows
        \<and> sorted_wrt (\<lambda>a b. key b \<le> key a) (sorted_rows rows))"

text \<open>
  A sort that keeps the promise, built as pandas builds its own: for a descending sort
  the rows are reversed, sorted ascending and reversed again. With the stable sort used
  here rows with equal keys stay in their original order.
\<close>

definition sort_values_stable :: "('r \<Rightarrow> int) \<Rightarrow> bool \<Rightarrow> 'r list \<Rightarrow> 'r list" where
  "sort_values_stable key ascending rows =
     (if ascending then sort_key key rows else rev (sort_key key (rev rows)))"

text \<open>
  The left edges of the bins the grouper lays out for the rows of user \<open>u\<close> in a
  view, as the loops of \<open>get_time_invested\<close> call it.
\<close>

definition user_bins :: "int \<Rightarrow> (user_id \<times> timestamp) list \<Rightarrow> user_id \<Rightarrow> timestamp list" where
  "user_bins interval view u =
     time_grouper_labels (interval * minute_nanos) (user_timestamps view u)"

section \<open>get\_user\_contributions\<close>

text \<open>
  The three contributor dictionaries are association lists from a key to a count; the
  type of the keys is left open, and \<open>py_int\<close> is Python's \<open>int(u)\<close> on a key
  (\<open>None\<close> where it raises \<open>ValueError\<close>).

  \<open>for u in contributors: stats[..][u] = contributors[u]\<close>
\<close>

fun assign_counts :: "('k \<times> int) list \<Rightarrow> 'k list \<Rightarrow> ('k \<rightharpoonup> int) \<Rightarrow> ('k \<rightharpoonup> int)" where
  "assign_counts contributors [] stats = stats"
| "assign_counts contributors (u # us) stats =
     assign_counts contributors us (stats(u := map_of contributors u))"

text \<open>
  The list comprehension of the return statement: the last name is looked up first, then
  the three counts.
\<close>

fun contribution_rows :: "('k \<Rightarrow> int option) \<Rightarrow> (user_id \<rightharpoonup> string) \<Rightarrow> ('k \<rightharpoonup> int)
    \<Rightarrow> ('k \<rightharpoonup> int) \<Rightarrow> ('k \<rightharpoonup> int) \<Rightarrow> nat \<Rightarrow> 'k list
    \<Rightarrow> error + contribution_row list" where
  "contribution_rows py_int user_list st_nodes st_pre st_post i [] = Inr []"
| "contribution_rows py_int user_list st_nodes st_pre st_post i (u # us) =
     (case py_int u of
        None \<Rightarrow> Inl ValueError
      | Some uid \<Rightarrow>
          (case (user_list uid, st_nodes u, st_pre u, st_post u) of
             (Some nm, Some n, Some a, Some b) \<Rightarrow>
               (case contribution_rows py_int user_list st_nodes st_pre st_post (Suc i) us of
                  Inl err \<Rightarrow> Inl err
                | Inr rows \<Rightarrow>
                    Inr (\<lparr>position = i, contributor = nm, nodes = n, presynapses = a,
                          postsynapses = b\<rparr> # rows))
           | _ \<Rightarrow> Inl KeyError))"

text \<open>
  \<open>all_users\<close> is a Python set built from the concatenated key lists. The order in
  which a set is iterated is not specified by the language; \<open>set_order\<close> gives it, as
  a function of the list the set is built from, and is a parameter of the model, like the
  library sort, which is called with the column \<open>nodes\<close> and \<open>ascending = False\<close>.
\<close>

definition contributors_of :: "('k list \<Rightarrow> 'k list) \<Rightarrow> ('k \<times> int) list \<Rightarrow> ('k \<times> int) list
    \<Rightarrow> ('k \<times> int) list \<Rightarrow> 'k list" where
  "contributors_of set_order node_contributors pre_contributors post_contributors =
     set_order (map fst node_contributors @ map fst pre_contributors
                  @ map fst post_contributors)"

definition get_user_contributions :: "('k list \<Rightarrow> 'k list) \<Rightarrow> ('k \<Rightarrow> int option)
    \<Rightarrow> ((contribution_row \<Rightarrow> int) \<Rightarrow> bool \<Rightarrow> contribution_row list \<Rightarrow> contribution_row list)
    \<Rightarrow> (user_id \<rightharpoonup> string)
    \<Rightarrow> ('k \<times> int) list \<Rightarrow> ('k \<times> int) list \<Rightarrow> ('k \<times> int) list
    \<Rightarrow> error + contribution_row list" where
  "get_user_contributions set_order py_int sort_values user_list node_contributors
       pre_contributors post_contributors =
     (let users = contributors_of set_order node_contributors pre_contributors
                    post_contributors;
          zero = zero_stats users;
          st_nodes = assign_counts node_contributors (map fst node_contributors) zero;
          st_pre = assign_counts pre_contributors (map fst pre_contributors) zero;
          st_post = assign_counts post_contributors (map fst post_contributors) zero
      in case contribution_rows py_int user_list st_nodes st_pre st_post 0 users of
           Inl e \<Rightarrow> Inl e
         | Inr rows \<Rightarrow> Inr (sort_values nodes False rows))"

text \<open>What the language promises of iterating a set: every element, once.\<close>

definition iterates_set :: "('k list \<Rightarrow> 'k list) \<Rightarrow> bool" where
  "iterates_set set_order \<longleftrightarrow>
     (\<forall>xs. set (set_order xs) = set xs \<and> distinct (set_order xs))"

text \<open>The count a user has in a dictionary, 0 when the user is not a key of it.\<close>

definition count_or_zero :: "('k \<times> int) list \<Rightarrow> 'k \<Rightarrow> int" where
  "count_or_zero contributors u =
     (case map_of contributors u of Some n \<Rightarrow> n | None \<Rightarrow> 0)"

section \<open>Timestamps in range\<close>

text \<open>
  A condition on the input under which no bin edge leaves the 64-bit range: the bin width
  fits, no timestamp lies within a day of the least value, and every timestamp is at
  least one bin width below the greatest.
\<close>

definition timestamps_in_range :: "int \<Rightarrow> node_detail list \<Rightarrow> bool" where
  "timestamps_in_range interval node_details \<longleftrightarrow>
     interval * minute_nanos \<le> int64_max
     \<and> (\<forall>t\<in>snd ` set (all_timestamps node_details).
           day_nanos - int64_max \<le> t \<and> t + interval * minute_nanos \<le> int64_max)"

text \<open>
  The grouper call for the rows of one user in one view goes through: the bin width is
  positive and nothing leaves the 64-bit range. A view is computable when that holds for
  each of its users, the input when it holds for the four views.
\<close>

definition user_ok :: "int \<Rightarrow> (user_id \<times> timestamp) list \<Rightarrow> user_id \<Rightarrow> bool" where
  "user_ok interval view u \<longleftrightarrow>
     0 < interval \<and> grouper_in_bounds (interval * minute_nanos) (user_timestamps view u)"

definition view_ok :: "int \<Rightarrow> (user_id \<times> timestamp) list \<Rightarrow> bool" where
  "view_ok interval view \<longleftrightarrow> (\<forall>u\<in>fst ` set view. user_ok interval view u)"

definition computable :: "int \<Rightarrow> node_detail list \<Rightarrow> bool" where
  "computable interval node_details \<longleftrightarrow>
     view_ok interval (all_timestamps node_details)
     \<and> view_ok interval (creation_timestamps node_details)
     \<and> view_ok interval (edition_timestamps node_details)
     \<and> view_ok interval (review_timestamps node_details)"

section \<open>Bins by index\<close>

text \<open>
  The number of the bin of width \<open>nanos\<close> that holds \<open>t\<close>, counted from \<open>origin\<close>:
  bin \<open>j\<close> is the half-open range from \<open>origin + j * nanos\<close> to
  \<open>origin + (j + 1) * nanos\<close>.
\<close>

definition bin_index :: "timestamp \<Rightarrow> int \<Rightarrow> timestamp \<Rightarrow> int" where
  "bin_index origin nanos t = (t - origin) div nanos"

definition index_count :: "timestamp \<Rightarrow> int \<Rightarrow> timestamp list \<Rightarrow> int \<Rightarrow> int" where
  "index_count origin nanos ts j = int (length (filter (\<lambda>t. bin_index origin nanos t = j) ts))"

section \<open>The estimate in the words of the specification\<close>

text \<open>
  The number of bins of width \<open>nanos\<close>, laid out from \<open>origin\<close> in both directions,
  that contain at least \<open>minimum_actions\<close> of the timestamps \<open>ts\<close>.
\<close>

definition bins_with_at_least :: "timestamp \<Rightarrow> int \<Rightarrow> int \<Rightarrow> timestamp list \<Rightarrow> nat" where
  "bins_with_at_least origin nanos minimum_actions ts =
     card {j. minimum_actions \<le>
              int (length (filter (\<lambda>t. origin + j * nanos \<le> t \<and> t < origin + (j + 1) * nanos) ts))}"

text \<open>
  That bin count, multiplied by \<open>interval\<close>, for the timestamps of one user in one view.
  The bins are laid out from midnight of the day of the user's earliest timestamp in
  the view.
\<close>

definition spec_minutes :: "int \<Rightarrow> int \<Rightarrow> (user_id \<times> timestamp) list \<Rightarrow> user_id \<Rightarrow> int" where
  "spec_minutes interval minimum_actions view u =
     int (bins_with_at_least (normalize (Min (set (user_timestamps view u))))
            (interval * minute_nanos) minimum_actions (user_timestamps view u)) * interval"



section \<open>Example inputs\<close>

text \<open>
  Three nodes created by user 1 at minutes 0, 0.5 and 2 of the first day of the epoch,
  each last edited by user 2 at the time of its creation, none reviewed.
\<close>

definition example_users :: "user_id \<rightharpoonup> string" where
  "example_users = [1 \<mapsto> ''A'', 2 \<mapsto> ''B'', 3 \<mapsto> ''C'']"

definition at_minute :: "int \<Rightarrow> timestamp" where
  "at_minute k = k * minute_nanos"

definition node :: "user_id \<Rightarrow> timestamp \<Rightarrow> user_id \<Rightarrow> timestamp \<Rightarrow> user_id list
    \<Rightarrow> timestamp list \<Rightarrow> node_detail" where
  "node u ct e et rs rts =
     \<lparr>user = u, creation_time = ct, editor = e, edition_time = et, reviewers = rs,
      review_times = rts\<rparr>"

definition example_nodes :: "node_detail list" where
  "example_nodes =
     [node 1 0 2 0 [] [],
      node 1 30000000000 2 30000000000 [] [],
      node 1 (at_minute 2) 2 (at_minute 2) [] []]"

text \<open>
  User 1 creates a node at 23:50 of the first day and one at 00:01 of the second day;
  user 2 creates a node at 00:01 of the second day. Nobody edits or reviews.
\<close>

definition midnight_nodes :: "node_detail list" where
  "midnight_nodes =
     [node 1 (at_minute 1430) 1 (at_minute 1430) [] [],
      node 1 (at_minute 1441) 1 (at_minute 1441) [] [],
      node 2 (at_minute 1441) 2 (at_minute 1441) [] []]"

text \<open>
  User 2 creates a node at 23:40 of the first day, which user 1 reviews at 23:50. On the
  second day user 1 creates four nodes, at 00:06, 00:07, 00:20 and 00:21. Every node was
  last edited by its creator, at creation.
\<close>

definition overnight_nodes :: "node_detail list" where
  "overnight_nodes =
     [node 2 (at_minute 1420) 2 (at_minute 1420) [1] [at_minute 1430],
      node 1 (at_minute 1446) 1 (at_minute 1446) [] [],
      node 1 (at_minute 1447) 1 (at_minute 1447) [] [],
      node 1 (at_minute 1460) 1 (at_minute 1460) [] [],
      node 1 (at_minute 1461) 1 (at_minute 1461) [] []]"

text \<open>
  Contributor dictionaries with the keys as the server sends them, strings of digits:
  user 1 placed 10 nodes and 2 presynapses, user 2 placed 30 nodes, user 3 placed 4
  postsynapses.
\<close>

definition example_int :: "string \<Rightarrow> int option" where
  "example_int = [''1'' \<mapsto> 1, ''2'' \<mapsto> 2, ''3'' \<mapsto> 3]"

definition example_node_contributors :: "(string \<times> int) list" where
  "example_node_contributors = [(''1'', 10), (''2'', 30)]"

definition example_pre_contributors :: "(string \<times> int) list" where
  "example_pre_contributors = [(''1'', 2)]"

definition example_post_contributors :: "(string \<times> int) list" where
  "example_post_contributors = [(''3'', 4)]"

section \<open>Basic facts about the model\<close>

lemma set_unique: "set (unique xs) = set xs"
  by (induction xs rule: unique.induct) auto

lemma distinct_unique: "distinct (unique xs)"
  by (induction xs rule: unique.induct) (auto simp: set_unique)

lemma unique_Nil_iff: "unique xs = [] \<longleftrightarrow> xs = []"
  by (cases xs) simp_all

lemma sorted_wrt_rev_sort_key:
  "sorted_wrt (\<lambda>a b. key b \<le> (key a :: int)) (rev (sort_key key xs))"
proof -
  have "sorted (map key (sort_key key xs))" by (rule sorted_sort_key)
  then have "sorted_wrt (\<lambda>x y. key x \<le> key y) (sort_key key xs)"
    by (simp only: sorted_map)
  then show ?thesis by (simp only: sorted_wrt_rev)
qed

lemma sorted_wrt_sort_key:
  "sorted_wrt (\<lambda>a b. key a \<le> (key b :: int)) (sort_key key xs)"
proof -
  have "sorted (map key (sort_key key xs))" by (rule sorted_sort_key)
  then show ?thesis by (simp only: sorted_map)
qed

lemma sort_values_stable_ok: "sorts_by_key sort_values_stable"
  unfolding sorts_by_key_def
proof (intro allI conjI)
  fix key :: "'a \<Rightarrow> int" and ascending rows
  show "mset (sort_values_stable key ascending rows) = mset rows"
    by (cases ascending) (simp_all add: sort_values_stable_def)
  show "sorted_wrt (\<lambda>a b. if ascending then key a \<le> key b else key b \<le> key a)
          (sort_values_stable key ascending rows)"
  proof (cases ascending)
    case True
    then show ?thesis
      using sorted_wrt_sort_key[of key rows] by (simp add: sort_values_stable_def)
  next
    case False
    then show ?thesis
      using sorted_wrt_rev_sort_key[of key "rev rows"] by (simp add: sort_values_stable_def)
  qed
qed

lemma sorts_by_key_descending:
  assumes "sorts_by_key sv"
  shows "sorts_descending key (sv key False)"
  unfolding sorts_descending_def
proof (intro allI conjI)
  fix rows
  from assms have a: "mset (sv key False rows) = mset rows
      \<and> sorted_wrt (\<lambda>a b. if False then key a \<le> key b else key b \<le> key a)
          (sv key False rows)"
    unfolding sorts_by_key_def by blast
  then show "mset (sv key False rows) = mset rows" by simp
  from a show "sorted_wrt (\<lambda>a b. key b \<le> key a) (sv key False rows)" by simp
qed

lemma sort_desc_stable_ok: "sorts_descending key (sort_values_stable key False)"
  using sort_values_stable_ok by (rule sorts_by_key_descending)

lemma sorts_descending_Nil: "sorts_descending key srt \<Longrightarrow> srt [] = []"
  unfolding sorts_descending_def by (metis mset_zero_iff)

lemma sorts_descending_set: "sorts_descending key srt \<Longrightarrow> set (srt rows) = set rows"
  unfolding sorts_descending_def by (metis set_mset_mset)

lemma user_timestamps_Nil_iff: "user_timestamps view u = [] \<longleftrightarrow> u \<notin> fst ` set view"
  unfolding user_timestamps_def by (auto simp: filter_empty_conv image_iff)

lemma zero_stats_apply: "zero_stats users u = (if u \<in> set users then Some 0 else None)"
  unfolding zero_stats_def by (induction users) auto

lemma time_spent_ok:
  assumes "user_ok interval view u" and "u \<in> fst ` set view"
  shows "time_spent interval m (user_timestamps view u) = Inr (view_minutes interval m view u)"
  using assms by (simp add: time_spent_def view_minutes_def user_ok_def user_timestamps_Nil_iff)

lemma time_spent_not_ok:
  assumes "\<not> user_ok interval view u"
  shows "\<exists>e. time_spent interval m (user_timestamps view u) = Inl e"
  using assms by (auto simp: time_spent_def user_ok_def)

lemma add_time_ok:
  assumes "distinct us"
    and "\<forall>u\<in>set us. user_ok interval view u \<and> stats u \<noteq> None \<and> u \<in> fst ` set view"
  shows "add_time interval m view us stats =
           Inr (\<lambda>u. if u \<in> set us
                    then map_option (\<lambda>old. old + view_minutes interval m view u) (stats u)
                    else stats u)"
  using assms
proof (induction us arbitrary: stats)
  case Nil
  then show ?case by simp
next
  case (Cons u us)
  from Cons.prems obtain old where old: "stats u = Some old" by auto
  let ?v = "view_minutes interval m view u"
  have spent: "time_spent interval m (user_timestamps view u) = Inr ?v"
    using Cons.prems by (intro time_spent_ok) simp_all
  have "add_time interval m view us (stats(u \<mapsto> old + ?v)) =
          Inr (\<lambda>x. if x \<in> set us
                   then map_option (\<lambda>o'. o' + view_minutes interval m view x)
                          ((stats(u \<mapsto> old + ?v)) x)
                   else (stats(u \<mapsto> old + ?v)) x)"
    using Cons.prems by (intro Cons.IH) auto
  also have "(\<lambda>x. if x \<in> set us
                   then map_option (\<lambda>o'. o' + view_minutes interval m view x)
                          ((stats(u \<mapsto> old + ?v)) x)
                   else (stats(u \<mapsto> old + ?v)) x) =
             (\<lambda>x. if x \<in> set (u # us)
                    then map_option (\<lambda>old. old + view_minutes interval m view x) (stats x)
                    else stats x)"
    using Cons.prems old by (auto simp: fun_eq_iff)
  finally have step: "add_time interval m view us (stats(u \<mapsto> old + ?v)) =
      Inr (\<lambda>x. if x \<in> set (u # us)
               then map_option (\<lambda>old. old + view_minutes interval m view x) (stats x)
               else stats x)" .
  show ?case by (simp only: add_time.simps old spent option.case sum.case step)
qed

lemma add_time_fails:
  assumes "\<exists>u\<in>set us. \<not> user_ok interval view u"
  shows "\<exists>e. add_time interval m view us stats = Inl e"
  using assms
proof (induction us arbitrary: stats)
  case Nil
  then show ?case by simp
next
  case (Cons u us)
  show ?case
  proof (cases "stats u")
    case None
    then show ?thesis by simp
  next
    case (Some old)
    show ?thesis
    proof (cases "time_spent interval m (user_timestamps view u)")
      case (Inl e)
      with Some show ?thesis by simp
    next
      case (Inr v)
      have "user_ok interval view u"
      proof (rule ccontr)
        assume "\<not> user_ok interval view u"
        from time_spent_not_ok[OF this, where m = m] Inr show False by simp
      qed
      with Cons.prems have "\<exists>u\<in>set us. \<not> user_ok interval view u" by auto
      then have "\<exists>e. add_time interval m view us (stats(u \<mapsto> old + v)) = Inl e"
        by (rule Cons.IH)
      with Some Inr show ?thesis by simp
    qed
  qed
qed

text \<open>The loop over one view, started from the zero dictionary.\<close>

lemma add_time_view:
  assumes "view_ok interval view" and "fst ` set view \<subseteq> set users"
  shows "add_time interval m view (unique (map fst view)) (zero_stats users) =
           Inr (\<lambda>u. if u \<in> set users then Some (view_minutes interval m view u) else None)"
proof -
  have "add_time interval m view (unique (map fst view)) (zero_stats users) =
          Inr (\<lambda>u. if u \<in> set (unique (map fst view))
                    then map_option (\<lambda>old. old + view_minutes interval m view u)
                           (zero_stats users u)
                    else zero_stats users u)"
    using assms
    by (intro add_time_ok) (auto simp: distinct_unique set_unique zero_stats_apply view_ok_def)
  also have "(\<lambda>u. if u \<in> set (unique (map fst view))
                    then map_option (\<lambda>old. old + view_minutes interval m view u)
                           (zero_stats users u)
                    else zero_stats users u) =
             (\<lambda>u. if u \<in> set users then Some (view_minutes interval m view u) else None)"
    using assms(2) by (auto simp: fun_eq_iff set_unique zero_stats_apply view_minutes_def)
  finally show ?thesis .
qed

lemma add_time_view_fails:
  assumes "\<not> view_ok interval view"
  shows "\<exists>e. add_time interval m view (unique (map fst view)) stats = Inl e"
  using assms by (intro add_time_fails) (auto simp: view_ok_def set_unique)

lemma time_rows_eq:
  assumes "\<forall>u\<in>set us. st_t u = Some (ft u) \<and> st_c u = Some (fc u)
             \<and> st_e u = Some (fe u) \<and> st_r u = Some (fr u)"
  shows "time_rows ul st_t st_c st_e st_r i us =
           (if \<exists>u\<in>set us. ul u = None then Inl KeyError
            else Inr (map (\<lambda>p. \<lparr>index = fst p,
                                 last_name = (case ul (snd p) of Some nm \<Rightarrow> nm | None \<Rightarrow> []),
                                 total = ft (snd p), creation = fc (snd p),
                                 edition = fe (snd p), review = fr (snd p)\<rparr>)
                       (enumerate i us)))"
  using assms
proof (induction us arbitrary: i)
  case Nil
  then show ?case by simp
next
  case (Cons u us)
  then show ?case by (cases "ul u") (auto split: sum.splits)
qed

lemma set_all_users:
  "set (all_users nd) = fst ` set (all_timestamps nd)"
  by (simp add: all_users_def set_unique)

lemma views_in_all:
  "fst ` set (all_timestamps nd) \<subseteq> set (all_users nd)"
  "fst ` set (creation_timestamps nd) \<subseteq> set (all_users nd)"
  "fst ` set (edition_timestamps nd) \<subseteq> set (all_users nd)"
  "fst ` set (review_timestamps nd) \<subseteq> set (all_users nd)"
  by (auto simp: set_all_users all_timestamps_def)

text \<open>
  The outcome of the function: a report when the four views are computable and the user
  list knows every user, an error otherwise.
\<close>

lemma get_time_invested_returns:
  assumes "computable interval nd" and "\<forall>u\<in>set (all_users nd). ul u \<noteq> None"
  shows "get_time_invested sv ul nd interval m =
           Inr (sv total False (unsorted_rows ul nd interval m))"
proof -
  let ?st = "\<lambda>view u. if u \<in> set (all_users nd)
                        then Some (view_minutes interval m view u) else None"
  from assms(1) have ok: "view_ok interval (all_timestamps nd)"
    "view_ok interval (creation_timestamps nd)" "view_ok interval (edition_timestamps nd)"
    "view_ok interval (review_timestamps nd)"
    by (simp_all add: computable_def)
  have t: "add_time interval m (all_timestamps nd) (all_users nd) (zero_stats (all_users nd))
             = Inr (?st (all_timestamps nd))"
    using add_time_view[OF ok(1) views_in_all(1), where m = m] by (simp add: all_users_def)
  have c: "add_time interval m (creation_timestamps nd)
             (unique (map fst (creation_timestamps nd))) (zero_stats (all_users nd))
             = Inr (?st (creation_timestamps nd))"
    by (rule add_time_view[OF ok(2) views_in_all(2)])
  have e: "add_time interval m (edition_timestamps nd)
             (unique (map fst (edition_timestamps nd))) (zero_stats (all_users nd))
             = Inr (?st (edition_timestamps nd))"
    by (rule add_time_view[OF ok(3) views_in_all(3)])
  have r: "add_time interval m (review_timestamps nd)
             (unique (map fst (review_timestamps nd))) (zero_stats (all_users nd))
             = Inr (?st (review_timestamps nd))"
    by (rule add_time_view[OF ok(4) views_in_all(4)])
  have "time_rows ul (?st (all_timestamps nd)) (?st (creation_timestamps nd))
                (?st (edition_timestamps nd)) (?st (review_timestamps nd)) 0 (all_users nd) =
              (if \<exists>u\<in>set (all_users nd). ul u = None then Inl KeyError
               else Inr (unsorted_rows ul nd interval m))"
    unfolding unsorted_rows_def row_of_def
    by (rule time_rows_eq) simp
  moreover have "\<not> (\<exists>u\<in>set (all_users nd). ul u = None)" using assms(2) by blast
  ultimately have rows: "time_rows ul (?st (all_timestamps nd)) (?st (creation_timestamps nd))
                (?st (edition_timestamps nd)) (?st (review_timestamps nd)) 0 (all_users nd) =
              Inr (unsorted_rows ul nd interval m)"
    by (simp only: if_False)
  show ?thesis
    by (simp add: get_time_invested_def Let_def all_users_def[symmetric] t c e r rows)
qed

lemma get_time_invested_Inr:
  assumes "get_time_invested sv ul nd interval m = Inr rep"
  shows "computable interval nd \<and> (\<forall>u\<in>set (all_users nd). ul u \<noteq> None)
       \<and> rep = sv total False (unsorted_rows ul nd interval m)"
proof -
  let ?z = "zero_stats (all_users nd)"
  have ok1: "view_ok interval (all_timestamps nd)"
  proof (rule ccontr)
    assume "\<not> view_ok interval (all_timestamps nd)"
    then obtain e where "add_time interval m (all_timestamps nd)
        (unique (map fst (all_timestamps nd))) ?z = Inl e"
      using add_time_view_fails by blast
    then show False
      using assms by (simp add: get_time_invested_def Let_def all_users_def[symmetric])
  qed
  then have t: "\<exists>st. add_time interval m (all_timestamps nd)
        (unique (map fst (all_timestamps nd))) ?z = Inr st"
    using add_time_view[OF _ views_in_all(1), where m = m] by (simp add: all_users_def)
  have ok2: "view_ok interval (creation_timestamps nd)"
  proof (rule ccontr)
    assume "\<not> view_ok interval (creation_timestamps nd)"
    then obtain e where "add_time interval m (creation_timestamps nd)
        (unique (map fst (creation_timestamps nd))) ?z = Inl e"
      using add_time_view_fails by blast
    then show False
      using assms t
      by (auto simp: get_time_invested_def Let_def all_users_def[symmetric])
  qed
  then have c: "\<exists>st. add_time interval m (creation_timestamps nd)
        (unique (map fst (creation_timestamps nd))) ?z = Inr st"
    using add_time_view[OF _ views_in_all(2), where m = m] by simp
  have ok3: "view_ok interval (edition_timestamps nd)"
  proof (rule ccontr)
    assume "\<not> view_ok interval (edition_timestamps nd)"
    then obtain e where "add_time interval m (edition_timestamps nd)
        (unique (map fst (edition_timestamps nd))) ?z = Inl e"
      using add_time_view_fails by blast
    then show False
      using assms t c
      by (auto simp: get_time_invested_def Let_def all_users_def[symmetric])
  qed
  then have e: "\<exists>st. add_time interval m (edition_timestamps nd)
        (unique (map fst (edition_timestamps nd))) ?z = Inr st"
    using add_time_view[OF _ views_in_all(3), where m = m] by simp
  have ok4: "view_ok interval (review_timestamps nd)"
  proof (rule ccontr)
    assume "\<not> view_ok interval (review_timestamps nd)"
    then obtain e where "add_time interval m (review_timestamps nd)
        (unique (map fst (review_timestamps nd))) ?z = Inl e"
      using add_time_view_fails by blast
    then show False
      using assms t c e
      by (auto simp: get_time_invested_def Let_def all_users_def[symmetric])
  qed
  have comp: "computable interval nd"
    using ok1 ok2 ok3 ok4 by (simp add: computable_def)
  have known: "\<forall>u\<in>set (all_users nd). ul u \<noteq> None"
  proof (rule ccontr)
    assume n: "\<not> (\<forall>u\<in>set (all_users nd). ul u \<noteq> None)"
    let ?st = "\<lambda>view u. if u \<in> set (all_users nd)
                          then Some (view_minutes interval m view u) else None"
    have "time_rows ul (?st (all_timestamps nd)) (?st (creation_timestamps nd))
                (?st (edition_timestamps nd)) (?st (review_timestamps nd)) 0 (all_users nd) =
              (if \<exists>u\<in>set (all_users nd). ul u = None then Inl KeyError
               else Inr (unsorted_rows ul nd interval m))"
      unfolding unsorted_rows_def row_of_def
      by (rule time_rows_eq) simp
    with n have rows: "time_rows ul (?st (all_timestamps nd)) (?st (creation_timestamps nd))
                (?st (edition_timestamps nd)) (?st (review_timestamps nd)) 0 (all_users nd) =
              Inl KeyError"
      by auto
    have "get_time_invested sv ul nd interval m = Inl KeyError"
      using add_time_view[OF ok1 views_in_all(1), where m = m]
      by (simp add: get_time_invested_def Let_def all_users_def[symmetric] rows
          add_time_view[OF ok2 views_in_all(2)] add_time_view[OF ok3 views_in_all(3)]
          add_time_view[OF ok4 views_in_all(4)])
    with assms show False by simp
  qed
  from get_time_invested_returns[OF comp known, where sv = sv and m = m] assms
  show ?thesis using comp known by simp
qed

lemma computable_Nil: "computable interval []"
  by (simp add: computable_def view_ok_def all_timestamps_def creation_timestamps_def
      edition_timestamps_def review_timestamps_def)

lemma all_users_empty: "all_users [] = []"
  by (simp add: all_users_def all_timestamps_def creation_timestamps_def
      edition_timestamps_def review_timestamps_def)

lemma get_time_invested_Nil:
  "get_time_invested sv ul [] interval m = Inr (sv total False [])"
  using get_time_invested_returns[OF computable_Nil, where ul = ul and sv = sv
      and interval = interval and m = m]
  by (simp add: all_users_empty unsorted_rows_def)

section \<open>The grouper in terms of bin indices\<close>

lemma div_eq_iff_bounds:
  fixes a w j :: int
  assumes "0 < w"
  shows "a div w = j \<longleftrightarrow> j * w \<le> a \<and> a < j * w + w"
proof
  assume "a div w = j"
  moreover have "a = (a div w) * w + a mod w" by simp
  moreover have "0 \<le> a mod w" "a mod w < w" using assms by simp_all
  ultimately show "j * w \<le> a \<and> a < j * w + w" by auto
next
  assume b: "j * w \<le> a \<and> a < j * w + w"
  have "a = w * j + (a - j * w)" by simp
  moreover have "0 \<le> a - j * w" "a - j * w < w" using b by auto
  ultimately show "a div w = j" by (rule int_div_pos_eq)
qed

lemma adjust_dates_anchored_eq:
  assumes "0 < w"
  shows "adjust_dates_anchored f l w =
           (normalize f + bin_index (normalize f) w f * w,
            normalize f + bin_index (normalize f) w l * w + w)"
proof -
  have m: "x - (x - c) mod w = c + ((x - c) div w) * w" for x c :: int
    using minus_mod_eq_div_mult[of "x - c" w] by simp
  have nn: "0 \<le> (x - c) mod w" for x c :: int using assms by simp
  have "(if (x - c) mod w > 0 then x - (x - c) mod w else x) = c + ((x - c) div w) * w"
    for x c :: int
    using m[of x c] nn[of x c] by (cases "(x - c) mod w = 0") auto
  moreover have "(if (x - c) mod w > 0 then x + (w - (x - c) mod w) else x + w)
                   = c + ((x - c) div w) * w + w" for x c :: int
    using m[of x c] nn[of x c] by (cases "(x - c) mod w = 0") auto
  ultimately show ?thesis
    by (simp add: adjust_dates_anchored_def Let_def bin_index_def)
qed

lemma time_grouper_labels_eq:
  fixes ts :: "timestamp list"
  assumes "0 < w"
  defines "og \<equiv> normalize (Min (set ts))"
  defines "kf \<equiv> bin_index og w (Min (set ts))"
  defines "kl \<equiv> bin_index og w (Max (set ts))"
  shows "time_grouper_labels w ts =
           map (\<lambda>k. og + (kf + int k) * w) [0..<nat (kl - kf + 1)]"
proof -
  have "(og + kl * w + w - (og + kf * w)) div w = ((kl - kf + 1) * w) div w"
    by (simp add: algebra_simps)
  also have "\<dots> = kl - kf + 1" using assms(1) by simp
  finally have n: "(og + kl * w + w - (og + kf * w)) div w = kl - kf + 1" .
  have "time_grouper_labels w ts = bin_labels (og + kf * w) (og + kl * w + w) w"
    unfolding time_grouper_labels_def adjust_dates_anchored_eq[OF assms(1)] og_def kf_def kl_def
    by simp
  also have "\<dots> = map (\<lambda>k. og + kf * w + int k * w) [0..<nat (kl - kf + 1)]"
    unfolding bin_labels_def n ..
  also have "\<dots> = map (\<lambda>k. og + (kf + int k) * w) [0..<nat (kl - kf + 1)]"
    by (simp add: algebra_simps)
  finally show ?thesis .
qed

lemma bin_count_label:
  assumes "0 < w"
  shows "bin_count w ts (og + j * w) = index_count og w ts j"
proof -
  have "(og + j * w \<le> t \<and> t < og + j * w + w) \<longleftrightarrow> bin_index og w t = j" for t
    unfolding bin_index_def div_eq_iff_bounds[OF assms] by auto
  then show ?thesis by (simp add: bin_count_def index_count_def)
qed

lemma bin_index_mono:
  "0 < w \<Longrightarrow> s \<le> t \<Longrightarrow> bin_index og w s \<le> bin_index og w t"
  unfolding bin_index_def by (simp add: zdiv_mono1)

lemma active_bins_card:
  fixes ts :: "timestamp list"
  assumes "0 < w"
  defines "og \<equiv> normalize (Min (set ts))"
  defines "kf \<equiv> bin_index og w (Min (set ts))"
  defines "kl \<equiv> bin_index og w (Max (set ts))"
  shows "active_bins w m ts = card {j. kf \<le> j \<and> j \<le> kl \<and> m \<le> index_count og w ts j}"
proof -
  let ?n = "nat (kl - kf + 1)"
  let ?f = "\<lambda>k. kf + int k"
  have cnt: "time_grouper_count w ts = map (\<lambda>k. index_count og w ts (?f k)) [0..<?n]"
    unfolding time_grouper_count_def
      time_grouper_labels_eq[OF assms(1), of ts, folded og_def kf_def kl_def]
    by (simp add: bin_count_label[OF assms(1)])
  have "active_bins w m ts = card {k. k < ?n \<and> m \<le> index_count og w ts (?f k)}"
    unfolding active_bins_def cnt by (simp add: length_filter_conv_card cong: conj_cong)
  also have "\<dots> = card (?f ` {k. k < ?n \<and> m \<le> index_count og w ts (?f k)})"
    by (rule card_image[symmetric]) (simp add: inj_on_def)
  also have "?f ` {k. k < ?n \<and> m \<le> index_count og w ts (?f k)} =
             {j. kf \<le> j \<and> j \<le> kl \<and> m \<le> index_count og w ts j}"
  proof (intro set_eqI iffI)
    fix j assume "j \<in> ?f ` {k. k < ?n \<and> m \<le> index_count og w ts (?f k)}"
    then show "j \<in> {j. kf \<le> j \<and> j \<le> kl \<and> m \<le> index_count og w ts j}" by auto
  next
    fix j assume "j \<in> {j. kf \<le> j \<and> j \<le> kl \<and> m \<le> index_count og w ts j}"
    then have a: "kf \<le> j" and b: "j \<le> kl" and c: "m \<le> index_count og w ts j"
      by auto
    have lt: "nat (j - kf) < ?n" using a b by linarith
    have fk: "?f (nat (j - kf)) = j" using a by simp
    have "nat (j - kf) \<in> {k. k < ?n \<and> m \<le> index_count og w ts (?f k)}"
      using lt c by (simp only: mem_Collect_eq fk)
    then show "j \<in> ?f ` {k. k < ?n \<and> m \<le> index_count og w ts (?f k)}"
      using fk by (metis (no_types, lifting) image_eqI)
  qed
  finally show ?thesis .
qed

section \<open>Input in range is computable\<close>

lemma grouper_in_bounds_range:
  assumes "0 < w" and "w \<le> int64_max" and "ts \<noteq> []"
    and "\<forall>t\<in>set ts. day_nanos - int64_max \<le> t \<and> t + w \<le> int64_max"
  shows "grouper_in_bounds w ts"
proof -
  let ?mn = "Min (set ts)" and ?mx = "Max (set ts)"
  let ?og = "normalize ?mn"
  have mem: "?mn \<in> set ts" "?mx \<in> set ts" using assms(3) by simp_all
  have mn: "day_nanos - int64_max \<le> ?mn" "?mn + w \<le> int64_max"
    and mx: "day_nanos - int64_max \<le> ?mx" "?mx + w \<le> int64_max"
    using assms(4) mem by blast+
  have d: "0 \<le> ?mn mod day_nanos" "?mn mod day_nanos < day_nanos"
    by (simp_all add: day_nanos_def)
  have og: "?mn - day_nanos < ?og" "?og \<le> ?mn"
    using d by (simp_all add: normalize_def)
  have le: "?mn \<le> ?mx" using assms(3) by simp
  have f: "?og + bin_index ?og w ?mn * w = ?mn - (?mn - ?og) mod w"
    unfolding bin_index_def using minus_mod_eq_div_mult[of "?mn - ?og" w] by simp
  have l: "?og + bin_index ?og w ?mx * w = ?mx - (?mx - ?og) mod w"
    unfolding bin_index_def using minus_mod_eq_div_mult[of "?mx - ?og" w] by simp
  have fm: "0 \<le> (?mn - ?og) mod w" "(?mn - ?og) mod w \<le> ?mn - ?og"
    using assms(1) og(2) by (simp_all add: zmod_le_nonneg_dividend)
  have lm: "0 \<le> (?mx - ?og) mod w" "(?mx - ?og) mod w < w"
    using assms(1) by simp_all
  have "in_bounds w" using assms(1,2) unfolding in_bounds_def by linarith
  moreover have "in_bounds ?og" using og mn assms(1) unfolding in_bounds_def by linarith
  moreover have "in_bounds (?og + bin_index ?og w ?mn * w)"
    unfolding f in_bounds_def using fm og mn assms(1) by linarith
  moreover have "in_bounds (?og + bin_index ?og w ?mx * w + w)"
    unfolding l in_bounds_def using lm mx assms(1) d by linarith
  ultimately show ?thesis
    by (simp add: grouper_in_bounds_def adjust_dates_anchored_eq[OF assms(1)])
qed

lemma view_ok_range:
  assumes "0 < interval" and "timestamps_in_range interval nd"
    and "set view \<subseteq> set (all_timestamps nd)"
  shows "view_ok interval view"
  unfolding view_ok_def user_ok_def
proof (intro ballI conjI)
  fix u assume u: "u \<in> fst ` set view"
  show "0 < interval" by (rule assms(1))
  show "grouper_in_bounds (interval * minute_nanos) (user_timestamps view u)"
  proof (rule grouper_in_bounds_range)
    show "0 < interval * minute_nanos" using assms(1) by (simp add: minute_nanos_def)
    show "interval * minute_nanos \<le> int64_max"
      using assms(2) by (simp add: timestamps_in_range_def)
    show "user_timestamps view u \<noteq> []" using u by (simp add: user_timestamps_Nil_iff)
    have "set (user_timestamps view u) \<subseteq> snd ` set (all_timestamps nd)"
      using assms(3) by (auto simp: user_timestamps_def)
    then show "\<forall>t\<in>set (user_timestamps view u).
        day_nanos - int64_max \<le> t \<and> t + interval * minute_nanos \<le> int64_max"
      using assms(2) by (auto simp: timestamps_in_range_def)
  qed
qed

lemma computable_range:
  assumes "0 < interval" and "timestamps_in_range interval nd"
  shows "computable interval nd"
  unfolding computable_def
  by (intro conjI view_ok_range[OF assms]) (auto simp: all_timestamps_def)

lemma get_time_invested_known:
  assumes "0 < interval" and "timestamps_in_range interval nd"
    and "\<forall>u\<in>set (all_users nd). ul u \<noteq> None"
  shows "get_time_invested sv ul nd interval m =
           Inr (sv total False (unsorted_rows ul nd interval m))"
  using computable_range[OF assms(1,2)] assms(3) by (rule get_time_invested_returns)

lemma index_count_pos_in_range:
  assumes "0 < w" and "0 < index_count og w ts j"
  shows "bin_index og w (Min (set ts)) \<le> j \<and> j \<le> bin_index og w (Max (set ts))"
proof -
  from assms(2) have "filter (\<lambda>t. bin_index og w t = j) ts \<noteq> []"
    by (auto simp: index_count_def)
  then obtain t where t: "t \<in> set ts" "bin_index og w t = j"
    by (auto simp: filter_empty_conv)
  then have "Min (set ts) \<le> t" "t \<le> Max (set ts)" by simp_all
  then show ?thesis using bin_index_mono[OF assms(1)] t(2) by blast
qed

lemma active_bins_spec:
  assumes "0 < w" and "0 < m"
  shows "active_bins w m ts = bins_with_at_least (normalize (Min (set ts))) w m ts"
proof -
  let ?og = "normalize (Min (set ts))"
  have "{j. bin_index ?og w (Min (set ts)) \<le> j \<and> j \<le> bin_index ?og w (Max (set ts))
            \<and> m \<le> index_count ?og w ts j} = {j. m \<le> index_count ?og w ts j}"
    using index_count_pos_in_range[OF assms(1), of ?og ts] assms(2) by fastforce
  moreover have "index_count ?og w ts j =
      int (length (filter (\<lambda>t. ?og + j * w \<le> t \<and> t < ?og + (j + 1) * w) ts))" for j
    using bin_count_label[OF assms(1), of ts ?og j]
    by (simp add: bin_count_def algebra_simps)
  ultimately show ?thesis
    unfolding active_bins_card[OF assms(1)] bins_with_at_least_def by simp
qed

lemma view_minutes_spec:
  assumes "0 < interval" and "0 < m"
  shows "view_minutes interval m view u = spec_minutes interval m view u"
proof (cases "u \<in> fst ` set view")
  case True
  then show ?thesis
    using assms by (simp add: view_minutes_def spec_minutes_def active_bins_spec minute_nanos_def)
next
  case False
  then have "user_timestamps view u = []" by (simp add: user_timestamps_Nil_iff)
  then show ?thesis
    using False assms(2) by (simp add: view_minutes_def spec_minutes_def bins_with_at_least_def)
qed

lemma view_minutes_spec_fun:
  "0 < interval \<Longrightarrow> 0 < m \<Longrightarrow> view_minutes interval m = spec_minutes interval m"
  by (simp add: fun_eq_iff view_minutes_spec)

lemma index_count_nonneg: "0 \<le> index_count og w ts j"
  by (simp add: index_count_def)



lemma index_count_pos_iff:
  "1 \<le> index_count og w ts j \<longleftrightarrow> j \<in> bin_index og w ` set ts"
proof -
  have "1 \<le> index_count og w ts j \<longleftrightarrow> filter (\<lambda>t. bin_index og w t = j) ts \<noteq> []"
    by (cases "filter (\<lambda>t. bin_index og w t = j) ts") (simp_all add: index_count_def)
  then show ?thesis by (auto simp: filter_empty_conv)
qed

lemma active_bins_one:
  assumes "0 < w"
  shows "active_bins w 1 ts = card (bin_index (normalize (Min (set ts))) w ` set ts)"
proof -
  let ?og = "normalize (Min (set ts))"
  have "{j. bin_index ?og w (Min (set ts)) \<le> j \<and> j \<le> bin_index ?og w (Max (set ts))
            \<and> 1 \<le> index_count ?og w ts j} = {j. 1 \<le> index_count ?og w ts j}"
    using index_count_pos_in_range[OF assms, of ?og ts] by fastforce
  also have "\<dots> = bin_index ?og w ` set ts"
    by (auto simp: index_count_pos_iff)
  finally show ?thesis unfolding active_bins_card[OF assms] by simp
qed

lemma bin_index_coarser:
  "0 < c \<Longrightarrow> bin_index og (w * c) t = bin_index og w t div c"
  by (simp add: bin_index_def zdiv_zmult2_eq)

lemma active_bins_coarser:
  assumes "0 < w" and "0 < c"
  shows "active_bins (w * c) 1 ts \<le> active_bins w 1 ts"
proof -
  let ?og = "normalize (Min (set ts))"
  have "bin_index ?og (w * c) ` set ts = (\<lambda>j. j div c) ` bin_index ?og w ` set ts"
    by (simp add: image_image bin_index_coarser[OF assms(2)])
  moreover have "card ((\<lambda>j. j div c) ` bin_index ?og w ` set ts)
                  \<le> card (bin_index ?og w ` set ts)"
    by (rule card_image_le) simp
  moreover have "0 < w * c" using assms by simp
  ultimately show ?thesis
    by (simp add: active_bins_one assms(1))
qed

lemma view_minutes_div:
  "0 < i \<Longrightarrow> view_minutes i m view u div i =
     (if u \<in> fst ` set view
      then int (active_bins (i * minute_nanos) m (user_timestamps view u)) else 0)"
  by (simp add: view_minutes_def)

lemma view_minutes_coarser:
  assumes "0 < i1" and "i1 dvd i2" and "0 < i2"
  shows "view_minutes i2 1 view u div i2 \<le> view_minutes i1 1 view u div i1"
proof -
  from assms(2) obtain c where c: "i2 = i1 * c" by (auto simp: dvd_def)
  with assms(1,3) have cpos: "0 < c" by (simp add: zero_less_mult_iff)
  have eq: "i2 * minute_nanos = (i1 * minute_nanos) * c" using c by simp
  have wpos: "0 < i1 * minute_nanos" using assms(1) by (simp add: minute_nanos_def)
  have "active_bins (i2 * minute_nanos) 1 (user_timestamps view u)
          \<le> active_bins (i1 * minute_nanos) 1 (user_timestamps view u)"
    unfolding eq by (rule active_bins_coarser[OF wpos cpos])
  then show ?thesis using assms(1,3) by (simp add: view_minutes_div)
qed

text \<open>A row of a report belongs to the user at the position its index column names.\<close>

lemma report_row:
  assumes "sorts_descending total (sv total False)"
    and "get_time_invested sv ul nd i m = Inr rep" and "r \<in> set rep"
  shows "index r < length (all_users nd)
       \<and> r = row_of (view_minutes i m) ul nd (index r, all_users nd ! index r)
       \<and> ul (all_users nd ! index r) = Some (last_name r)"
proof -
  from get_time_invested_Inr[OF assms(2)]
  have known: "\<forall>u\<in>set (all_users nd). ul u \<noteq> None"
    and rep: "rep = sv total False (unsorted_rows ul nd i m)"
    by blast+
  from assms(1,3) rep have "r \<in> set (unsorted_rows ul nd i m)"
    by (simp add: sorts_descending_set)
  then obtain p where p: "p \<in> set (enumerate 0 (all_users nd))"
    and r: "r = row_of (view_minutes i m) ul nd p"
    by (auto simp: unsorted_rows_def)
  from p have lt: "fst p < length (all_users nd)" and nth: "all_users nd ! fst p = snd p"
    by (simp_all add: in_set_enumerate_eq)
  have ix: "index r = fst p" using r by (simp add: row_of_def)
  from lt nth known obtain nm where nm: "ul (snd p) = Some nm"
    by (metis nth_mem not_Some_eq)
  then have "last_name r = nm" using r by (simp add: row_of_def)
  with nm lt nth ix r show ?thesis by (metis prod.collapse)
qed

lemma normalize_dvd: "day_nanos dvd normalize t"
  unfolding normalize_def by (simp add: minus_mod_eq_mult_div)

lemma width_dvd_day:
  assumes "interval dvd 1440"
  shows "interval * minute_nanos dvd day_nanos"
proof -
  have d: "day_nanos = 1440 * minute_nanos" by (simp add: day_nanos_def minute_nanos_def)
  show ?thesis unfolding d using assms by (rule mult_dvd_mono) simp
qed

lemma label_anchored:
  assumes "0 < w" and "lo \<in> set (time_grouper_labels w ts)"
  shows "w dvd (lo - normalize (Min (set ts)))"
proof -
  from assms(2) obtain j where "lo = normalize (Min (set ts)) + j * w"
    unfolding time_grouper_labels_eq[OF assms(1)] by auto
  then have "lo - normalize (Min (set ts)) = j * w" by simp
  then show ?thesis by simp
qed

lemma label_epoch_aligned:
  assumes "0 < w" and "w dvd day_nanos" and "lo \<in> set (time_grouper_labels w ts)"
  shows "w dvd lo"
proof -
  have "w dvd normalize (Min (set ts))"
    using assms(2) normalize_dvd by (rule dvd_trans)
  moreover have "w dvd (lo - normalize (Min (set ts)))"
    using assms(1,3) by (rule label_anchored)
  ultimately have "w dvd (lo - normalize (Min (set ts))) + normalize (Min (set ts))"
    by (simp only: dvd_add)
  then show ?thesis by simp
qed

lemma bin_index_shift:
  assumes "w dvd og"
  shows "bin_index og w t = bin_index 0 w t - og div w"
proof -
  from assms obtain q where q: "og = w * q" by (auto simp: dvd_def)
  show ?thesis
  proof (cases "w = 0")
    case True
    then show ?thesis using q by (simp add: bin_index_def)
  next
    case False
    have "(t - w * q) div w = (t + w * (- q)) div w" by simp
    also have "\<dots> = - q + t div w" using False by (rule div_mult_self2)
    also have "\<dots> = t div w + (- q)" by simp
    finally show ?thesis using False q by (simp add: bin_index_def)
  qed
qed

lemma index_count_shift:
  assumes "w dvd og"
  shows "index_count og w ts j = index_count 0 w ts (j + og div w)"
proof -
  have "(bin_index og w t = j) = (bin_index 0 w t = j + og div w)" for t
    unfolding bin_index_shift[OF assms] by auto
  then show ?thesis by (simp add: index_count_def)
qed

text \<open>
  When the bin width divides a day, the bins are those of the grid laid out from the
  epoch, whatever the day of the first timestamp.
\<close>

lemma active_bins_epoch:
  assumes "0 < w" and "w dvd day_nanos"
  shows "active_bins w m ts =
           card {a. bin_index 0 w (Min (set ts)) \<le> a \<and> a \<le> bin_index 0 w (Max (set ts))
                    \<and> m \<le> index_count 0 w ts a}"
proof -
  let ?og = "normalize (Min (set ts))"
  let ?q = "?og div w"
  let ?A = "{j. bin_index ?og w (Min (set ts)) \<le> j \<and> j \<le> bin_index ?og w (Max (set ts))
                \<and> m \<le> index_count ?og w ts j}"
  let ?B = "{a. bin_index 0 w (Min (set ts)) \<le> a \<and> a \<le> bin_index 0 w (Max (set ts))
                \<and> m \<le> index_count 0 w ts a}"
  have d: "w dvd ?og" using assms(2) normalize_dvd by (rule dvd_trans)
  have "?B = (\<lambda>j. j + ?q) ` ?A"
  proof (intro set_eqI iffI)
    fix a assume "a \<in> ?B"
    then have "a - ?q \<in> ?A"
      by (simp add: bin_index_shift[OF d] index_count_shift[OF d])
    then show "a \<in> (\<lambda>j. j + ?q) ` ?A" by (rule rev_image_eqI) simp
  next
    fix a assume "a \<in> (\<lambda>j. j + ?q) ` ?A"
    then obtain j where "j \<in> ?A" "a = j + ?q" by blast
    then show "a \<in> ?B"
      by (simp add: bin_index_shift[OF d] index_count_shift[OF d])
  qed
  moreover have "card ((\<lambda>j. j + ?q) ` ?A) = card ?A"
    by (rule card_image) (simp add: inj_on_def)
  ultimately show ?thesis unfolding active_bins_card[OF assms(1)] by simp
qed

lemma active_bins_sublist:
  assumes "0 < w" and "w dvd day_nanos" and "ts' \<noteq> []"
    and "set ts' \<subseteq> set ts"
    and "\<And>a. index_count 0 w ts' a \<le> index_count 0 w ts a"
  shows "active_bins w m ts' \<le> active_bins w m ts"
proof -
  have ne: "set ts' \<noteq> {}" using assms(3) by simp
  have "Min (set ts) \<le> Min (set ts')" using assms(4) ne by (intro Min_antimono) simp_all
  then have lo: "bin_index 0 w (Min (set ts)) \<le> bin_index 0 w (Min (set ts'))"
    by (rule bin_index_mono[OF assms(1)])
  have "Max (set ts') \<le> Max (set ts)" using assms(4) ne by (intro Max_mono) simp_all
  then have hi: "bin_index 0 w (Max (set ts')) \<le> bin_index 0 w (Max (set ts))"
    by (rule bin_index_mono[OF assms(1)])
  let ?B' = "{a. bin_index 0 w (Min (set ts')) \<le> a \<and> a \<le> bin_index 0 w (Max (set ts'))
                 \<and> m \<le> index_count 0 w ts' a}"
  let ?B = "{a. bin_index 0 w (Min (set ts)) \<le> a \<and> a \<le> bin_index 0 w (Max (set ts))
                \<and> m \<le> index_count 0 w ts a}"
  have "?B' \<subseteq> ?B"
    using lo hi assms(5) by (auto intro: order_trans)
  moreover have "finite ?B"
    by (rule finite_subset[of _ "{bin_index 0 w (Min (set ts))..bin_index 0 w (Max (set ts))}"])
      auto
  ultimately have "card ?B' \<le> card ?B" by (simp add: card_mono)
  then show ?thesis by (simp only: active_bins_epoch[OF assms(1,2)])
qed

lemma user_timestamps_append:
  "user_timestamps (xs @ ys) u = user_timestamps xs u @ user_timestamps ys u"
  by (simp add: user_timestamps_def)

lemma index_count_append:
  "index_count og w (xs @ ys) j = index_count og w xs j + index_count og w ys j"
  by (simp add: index_count_def)

lemma view_minutes_nonneg: "0 \<le> interval \<Longrightarrow> 0 \<le> view_minutes interval m view u"
  by (simp add: view_minutes_def)

text \<open>A view that is a part of another one never gets more minutes, on the epoch grid.\<close>

lemma view_minutes_part_le:
  assumes "0 < interval" and "interval dvd 1440"
    and "whole = before @ part @ after"
  shows "view_minutes interval m part u \<le> view_minutes interval m whole u"
proof (cases "u \<in> fst ` set part")
  case False
  then show ?thesis
    using view_minutes_nonneg[of interval m whole u] assms(1) by (simp add: view_minutes_def)
next
  case True
  then have inw: "u \<in> fst ` set whole" using assms(3) by auto
  let ?w = "interval * minute_nanos"
  let ?ts' = "user_timestamps part u"
  let ?ts = "user_timestamps whole u"
  have ts: "?ts = user_timestamps before u @ ?ts' @ user_timestamps after u"
    by (simp add: assms(3) user_timestamps_append)
  have w: "0 < ?w" using assms(1) by (simp add: minute_nanos_def)
  have "active_bins ?w m ?ts' \<le> active_bins ?w m ?ts"
  proof (rule active_bins_sublist[OF w width_dvd_day[OF assms(2)]])
    show "?ts' \<noteq> []" using True by (simp add: user_timestamps_Nil_iff)
    show "set ?ts' \<subseteq> set ?ts" unfolding ts by auto
    show "index_count 0 ?w ?ts' a \<le> index_count 0 ?w ?ts a" for a
      unfolding ts index_count_append using index_count_nonneg[of 0 ?w _ a]
      by (simp add: add_increasing add_increasing2)
  qed
  then have "int (active_bins ?w m ?ts') * interval \<le> int (active_bins ?w m ?ts) * interval"
    using assms(1) by (simp add: mult_right_mono)
  then show ?thesis using True inw by (simp add: view_minutes_def)
qed

lemma views_are_parts:
  "all_timestamps nd = [] @ creation_timestamps nd
     @ (edition_timestamps nd @ review_timestamps nd)"
  "all_timestamps nd = creation_timestamps nd @ edition_timestamps nd @ review_timestamps nd"
  "all_timestamps nd = (creation_timestamps nd @ edition_timestamps nd)
     @ review_timestamps nd @ []"
  by (simp_all add: all_timestamps_def)

lemma sorts_descending_sorted:
  "sorts_descending key srt \<Longrightarrow> sorted_wrt (\<lambda>a b. key b \<le> key a) (srt rows)"
  unfolding sorts_descending_def by blast

lemma sorts_descending_mset:
  "sorts_descending key srt \<Longrightarrow> mset (srt rows) = mset rows"
  unfolding sorts_descending_def by blast

text \<open>
  The report comes out of \<open>sort_values('total', ascending = False)\<close>: its totals never
  increase. Nothing in the function orders rows with equal totals.
\<close>

lemma report_sorted_by_total:
  assumes "sorts_by_key sv" and "get_time_invested sv ul nd i m = Inr rep"
  shows "sorted_wrt (\<lambda>a b. total b \<le> total a) rep"
proof -
  from get_time_invested_Inr[OF assms(2)]
  have "rep = sv total False (unsorted_rows ul nd i m)" by blast
  then show ?thesis
    using sorts_by_key_descending[OF assms(1), of total] by (simp add: sorts_descending_sorted)
qed

text \<open>
  The two inputs at the edge of the 64-bit range: a bin width of 153722868 minutes, and a
  timestamp less than a minute below the greatest value.
\<close>

lemma time_spent_out_of_bounds:
  "time_spent 153722868 1 [0] = Inl OutOfBoundsDatetime
   \<and> time_spent 1 1 [9223372036854775000] = Inl OutOfBoundsDatetime
   \<and> time_spent 153722867 1 [0] = Inr 153722867"
  by code_simp

lemma index_row_of: "index (row_of f ul nd p) = fst p"
  by (simp add: row_of_def)

lemma unsorted_users:
  "map (\<lambda>r. all_users nd ! index r) (unsorted_rows ul nd i m) = all_users nd"
proof -
  have "map (\<lambda>r. all_users nd ! index r) (unsorted_rows ul nd i m) =
          map (\<lambda>p. all_users nd ! fst p) (enumerate 0 (all_users nd))"
    by (simp add: unsorted_rows_def index_row_of o_def)
  also have "\<dots> = map snd (enumerate 0 (all_users nd))"
    by (rule map_cong) (simp_all add: in_set_enumerate_eq)
  finally show ?thesis by simp
qed

lemma report_users:
  assumes "sorts_descending total (sv total False)"
    and "get_time_invested sv ul nd i m = Inr rep"
  shows "mset (map (\<lambda>r. all_users nd ! index r) rep) = mset (all_users nd)"
proof -
  from get_time_invested_Inr[OF assms(2)]
  have rep: "rep = sv total False (unsorted_rows ul nd i m)" by blast
  have "mset (map (\<lambda>r. all_users nd ! index r) rep) =
          image_mset (\<lambda>r. all_users nd ! index r)
            (mset (sv total False (unsorted_rows ul nd i m)))"
    by (simp add: rep)
  also have "\<dots> = image_mset (\<lambda>r. all_users nd ! index r) (mset (unsorted_rows ul nd i m))"
    using assms(1) by (simp only: sorts_descending_mset)
  also have "\<dots> = mset (map (\<lambda>r. all_users nd ! index r) (unsorted_rows ul nd i m))"
    by simp
  finally show ?thesis by (simp only: unsorted_users)
qed

lemma view_minutes_absent: "u \<notin> fst ` set view \<Longrightarrow> view_minutes i m view u = 0"
  by (simp add: view_minutes_def)

lemma all_users_set:
  "set (all_users nd) = fst ` set (creation_timestamps nd) \<union> fst ` set (edition_timestamps nd)
     \<union> fst ` set (review_timestamps nd)"
  by (auto simp: set_all_users all_timestamps_def)

lemma distinct_all_users: "distinct (all_users nd)"
  by (simp add: all_users_def distinct_unique)

text \<open>
  When the bin width divides a day, all views of a user are binned on one grid and the
  total figure covers each category figure.
\<close>

lemma total_covers_categories_on_day_grid:
  assumes "0 < interval" and "interval dvd 1440"
    and "sorts_descending total (sv total False)"
    and "get_time_invested sv ul nd interval m = Inr rep"
    and "r \<in> set rep"
  shows "creation r \<le> total r \<and> edition r \<le> total r \<and> review r \<le> total r"
proof -
  let ?u = "all_users nd ! index r"
  let ?f = "view_minutes interval m"
  have r: "r = row_of ?f ul nd (index r, ?u)"
    using report_row[OF assms(3,4,5)] by simp
  have c: "?f (creation_timestamps nd) ?u \<le> ?f (all_timestamps nd) ?u"
    using assms(1,2) views_are_parts(1) by (rule view_minutes_part_le)
  have e: "?f (edition_timestamps nd) ?u \<le> ?f (all_timestamps nd) ?u"
    using assms(1,2) views_are_parts(2) by (rule view_minutes_part_le)
  have v: "?f (review_timestamps nd) ?u \<le> ?f (all_timestamps nd) ?u"
    using assms(1,2) views_are_parts(3) by (rule view_minutes_part_le)
  have "creation r \<le> total r" by (subst (1 2) r) (simp add: row_of_def c)
  moreover have "edition r \<le> total r" by (subst (1 2) r) (simp add: row_of_def e)
  moreover have "review r \<le> total r" by (subst (1 2) r) (simp add: row_of_def v)
  ultimately show ?thesis by simp
qed

lemma iterates_set_remdups: "iterates_set remdups"
  by (simp add: iterates_set_def)

lemma assign_counts_apply:
  "assign_counts c us stats u = (if u \<in> set us then map_of c u else stats u)"
  by (induction us arbitrary: stats) auto

lemma assign_counts_keys:
  assumes "fst ` set c \<subseteq> set users" and "u \<in> set users"
  shows "assign_counts c (map fst c) (zero_stats users) u = Some (count_or_zero c u)"
proof (cases "u \<in> fst ` set c")
  case True
  then obtain n where "map_of c u = Some n"
    by (metis domD dom_map_of_conv_image_fst)
  then show ?thesis using True by (simp add: assign_counts_apply count_or_zero_def)
next
  case False
  then have "map_of c u = None" by (simp add: map_of_eq_None_iff)
  then show ?thesis
    using False assms(2) by (simp add: assign_counts_apply count_or_zero_def zero_stats_apply)
qed

text \<open>
  The last name the comprehension looks up for a key: \<open>user_list.ix[int(u)].last_name\<close>.
\<close>

lemma contribution_rows_Inr:
  assumes "contribution_rows py_int ul st_n st_a st_b i us = Inr rows"
    and "\<forall>u\<in>set us. st_n u = Some (fn u) \<and> st_a u = Some (fa u) \<and> st_b u = Some (fb u)"
  shows "list_all2 (\<lambda>r p. position r = fst p
             \<and> (\<exists>uid. py_int (snd p) = Some uid \<and> ul uid = Some (contributor r))
             \<and> nodes r = fn (snd p) \<and> presynapses r = fa (snd p)
             \<and> postsynapses r = fb (snd p))
           rows (enumerate i us)"
  using assms
proof (induction us arbitrary: i rows)
  case Nil
  then show ?case by simp
next
  case (Cons u us)
  from Cons.prems(1) obtain uid nm rest where
    u: "py_int u = Some uid" "ul uid = Some nm"
    and rest: "contribution_rows py_int ul st_n st_a st_b (Suc i) us = Inr rest"
    and rows: "rows = \<lparr>position = i, contributor = nm, nodes = fn u, presynapses = fa u,
                         postsynapses = fb u\<rparr> # rest"
    using Cons.prems(2) by (auto split: option.splits sum.splits)
  have "list_all2 (\<lambda>r p. position r = fst p
             \<and> (\<exists>uid. py_int (snd p) = Some uid \<and> ul uid = Some (contributor r))
             \<and> nodes r = fn (snd p) \<and> presynapses r = fa (snd p)
             \<and> postsynapses r = fb (snd p))
           rest (enumerate (Suc i) us)"
    using rest Cons.prems(2) by (intro Cons.IH) auto
  then show ?case using u by (simp add: rows)
qed

lemma contribution_rows_returns:
  assumes "\<forall>u\<in>set us. st_n u \<noteq> None \<and> st_a u \<noteq> None \<and> st_b u \<noteq> None"
    and "\<forall>u\<in>set us. \<exists>uid. py_int u = Some uid \<and> ul uid \<noteq> None"
  shows "\<exists>rows. contribution_rows py_int ul st_n st_a st_b i us = Inr rows"
  using assms
proof (induction us arbitrary: i)
  case Nil
  then show ?case by simp
next
  case (Cons u us)
  then obtain rest where "contribution_rows py_int ul st_n st_a st_b (Suc i) us = Inr rest"
    by fastforce
  moreover from Cons.prems obtain uid nm n a b where
    "py_int u = Some uid" "ul uid = Some nm" "st_n u = Some n" "st_a u = Some a"
    "st_b u = Some b"
    by fastforce
  ultimately show ?case by simp
qed

lemma set_contributors_of:
  assumes "iterates_set ord"
  shows "set (contributors_of ord nc pre post) = fst ` set nc \<union> fst ` set pre \<union> fst ` set post"
    and "distinct (contributors_of ord nc pre post)"
  using assms by (auto simp: iterates_set_def contributors_of_def)

text \<open>The rows before sorting, matched with the users in the order of iteration.\<close>

lemma get_user_contributions_Inr:
  assumes "iterates_set ord"
    and "get_user_contributions ord py_int sv ul nc pre post = Inr report"
  obtains rows where "report = sv nodes False rows"
    and "list_all2 (\<lambda>r p. position r = fst p
             \<and> (\<exists>uid. py_int (snd p) = Some uid \<and> ul uid = Some (contributor r))
             \<and> nodes r = count_or_zero nc (snd p)
             \<and> presynapses r = count_or_zero pre (snd p)
             \<and> postsynapses r = count_or_zero post (snd p))
           rows (enumerate 0 (contributors_of ord nc pre post))"
proof -
  let ?users = "contributors_of ord nc pre post"
  let ?zero = "zero_stats ?users"
  from assms(2) obtain rows where
    rows: "contribution_rows py_int ul (assign_counts nc (map fst nc) ?zero)
             (assign_counts pre (map fst pre) ?zero) (assign_counts post (map fst post) ?zero)
             0 ?users = Inr rows"
    and rep: "report = sv nodes False rows"
    by (auto simp: get_user_contributions_def Let_def split: sum.splits)
  have sub: "fst ` set nc \<subseteq> set ?users" "fst ` set pre \<subseteq> set ?users"
    "fst ` set post \<subseteq> set ?users"
    using set_contributors_of(1)[OF assms(1)] by auto
  have "list_all2 (\<lambda>r p. position r = fst p
             \<and> (\<exists>uid. py_int (snd p) = Some uid \<and> ul uid = Some (contributor r))
             \<and> nodes r = count_or_zero nc (snd p)
             \<and> presynapses r = count_or_zero pre (snd p)
             \<and> postsynapses r = count_or_zero post (snd p))
           rows (enumerate 0 ?users)"
    using rows by (rule contribution_rows_Inr) (simp add: assign_counts_keys sub)
  with rep show ?thesis by (rule that)
qed

lemma get_user_contributions_returns:
  assumes "iterates_set ord"
    and "\<forall>u\<in>set (contributors_of ord nc pre post). \<exists>uid. py_int u = Some uid \<and> ul uid \<noteq> None"
  shows "\<exists>report. get_user_contributions ord py_int sv ul nc pre post = Inr report"
proof -
  let ?users = "contributors_of ord nc pre post"
  let ?zero = "zero_stats ?users"
  have sub: "fst ` set nc \<subseteq> set ?users" "fst ` set pre \<subseteq> set ?users"
    "fst ` set post \<subseteq> set ?users"
    using set_contributors_of(1)[OF assms(1)] by auto
  have "\<exists>rows. contribution_rows py_int ul (assign_counts nc (map fst nc) ?zero)
             (assign_counts pre (map fst pre) ?zero) (assign_counts post (map fst post) ?zero)
             0 ?users = Inr rows"
    using assms(2) by (intro contribution_rows_returns) (simp_all add: assign_counts_keys sub)
  then show ?thesis
    by (auto simp: get_user_contributions_def Let_def)
qed

section \<open>The claims\<close>

text \<open>
  C1. For every user and every view (creation, edition, review, total), the minutes that
  \<open>get_time_invested\<close> reports are the number of \<open>interval\<close>-minute bins holding at
  least \<open>minimum_actions\<close> of that user's timestamps in that view, times
  \<open>interval\<close>. Stated for the parameters the specification admits (both positive),
  for timestamps and a bin width within the 64-bit range of pandas and for a user list
  that knows every user: the frame returned is the sorted list of the rows written with
  \<open>spec_minutes\<close>, one per user in order of first appearance.
\<close>

theorem C1_minutes_are_bins_times_interval:
  assumes "0 < interval" and "0 < minimum_actions"
    and "timestamps_in_range interval node_details"
    and "\<forall>u\<in>set (all_users node_details). user_list u \<noteq> None"
  shows "get_time_invested sort_values user_list node_details interval minimum_actions =
           Inr (sort_values total False
                  (map (row_of (spec_minutes interval minimum_actions) user_list node_details)
                     (enumerate 0 (all_users node_details))))"
proof -
  have "unsorted_rows user_list node_details interval minimum_actions =
          map (row_of (spec_minutes interval minimum_actions) user_list node_details)
            (enumerate 0 (all_users node_details))"
    unfolding unsorted_rows_def view_minutes_spec_fun[OF assms(1,2)] ..
  then show ?thesis
    using get_time_invested_known[OF assms(1,3,4), where sv = sort_values
        and m = minimum_actions]
    by simp
qed

text \<open>
  The examples of the specification: creation timestamps of user A at minutes 0, 0.5 and
  2 with \<open>interval = 1\<close> give \<open>creation = 2\<close> for \<open>minimum_actions = 1\<close> and
  \<open>creation = 1\<close> for \<open>minimum_actions = 2\<close>.
\<close>

theorem C1_example_witness:
  "get_time_invested sort_values_stable example_users example_nodes 1 1 =
     Inr (sort_values_stable total False
            (map (row_of (spec_minutes 1 1) example_users example_nodes)
               (enumerate 0 (all_users example_nodes))))
   \<and> get_time_invested sort_values_stable example_users example_nodes 1 1 =
     Inr [\<lparr>index = 0, last_name = ''A'', total = 2, creation = 2, edition = 0, review = 0\<rparr>,
          \<lparr>index = 1, last_name = ''B'', total = 2, creation = 0, edition = 2, review = 0\<rparr>]
   \<and> get_time_invested sort_values_stable example_users example_nodes 1 2 =
     Inr [\<lparr>index = 0, last_name = ''A'', total = 1, creation = 1, edition = 0, review = 0\<rparr>,
          \<lparr>index = 1, last_name = ''B'', total = 1, creation = 0, edition = 1, review = 0\<rparr>]"
proof (intro conjI)
  have known: "\<forall>u\<in>set (all_users example_nodes). example_users u \<noteq> None"
    by code_simp
  have range: "timestamps_in_range 1 example_nodes"
    by code_simp
  show "get_time_invested sort_values_stable example_users example_nodes 1 1 =
     Inr (sort_values_stable total False
            (map (row_of (spec_minutes 1 1) example_users example_nodes)
               (enumerate 0 (all_users example_nodes))))"
    by (rule C1_minutes_are_bins_times_interval[OF _ _ range known]) simp_all
  show "get_time_invested sort_values_stable example_users example_nodes 1 1 =
     Inr [\<lparr>index = 0, last_name = ''A'', total = 2, creation = 2, edition = 0, review = 0\<rparr>,
          \<lparr>index = 1, last_name = ''B'', total = 2, creation = 0, edition = 2, review = 0\<rparr>]"
    by code_simp
  show "get_time_invested sort_values_stable example_users example_nodes 1 2 =
     Inr [\<lparr>index = 0, last_name = ''A'', total = 1, creation = 1, edition = 0, review = 0\<rparr>,
          \<lparr>index = 1, last_name = ''B'', total = 1, creation = 0, edition = 1, review = 0\<rparr>]"
    by code_simp
qed




text \<open>
  C3 (as amended). With \<open>minimum_actions = 1\<close> and an interval \<open>i2\<close> that is a
  multiple of \<open>i1\<close>, each user's number of active bins (the reported minutes divided
  by the interval) under \<open>i2\<close> is at most that under \<open>i1\<close>, in every view. The
  rows of the two reports are matched by their index column.
\<close>

theorem C3_coarser_bins_are_fewer:
  assumes "0 < i1" and "i1 < i2" and "i1 dvd i2"
    and "sorts_descending total (sort_values total False)"
    and "get_time_invested sort_values user_list node_details i1 1 = Inr report1"
    and "get_time_invested sort_values user_list node_details i2 1 = Inr report2"
    and "r1 \<in> set report1" and "r2 \<in> set report2" and "index r1 = index r2"
  shows "total r2 div i2 \<le> total r1 div i1 \<and> creation r2 div i2 \<le> creation r1 div i1
       \<and> edition r2 div i2 \<le> edition r1 div i1 \<and> review r2 div i2 \<le> review r1 div i1"
proof -
  have pos2: "0 < i2" using assms(1,2) by simp
  let ?u = "all_users node_details ! index r1"
  have r1: "r1 = row_of (view_minutes i1 1) user_list node_details (index r1, ?u)"
    using report_row[OF assms(4,5,7)] by simp
  have r2: "r2 = row_of (view_minutes i2 1) user_list node_details (index r1, ?u)"
    using report_row[OF assms(4,6,8)] assms(9) by simp
  note le = view_minutes_coarser[OF assms(1,3) pos2]
  have "total r2 div i2 \<le> total r1 div i1"
    by (subst r2, subst r1) (simp add: row_of_def le)
  moreover have "creation r2 div i2 \<le> creation r1 div i1"
    by (subst r2, subst r1) (simp add: row_of_def le)
  moreover have "edition r2 div i2 \<le> edition r1 div i1"
    by (subst r2, subst r1) (simp add: row_of_def le)
  moreover have "review r2 div i2 \<le> review r1 div i1"
    by (subst r2, subst r1) (simp add: row_of_def le)
  ultimately show ?thesis by simp
qed

text \<open>
  Intervals 1 and 3 on the example: user A has two active one-minute bins and one active
  three-minute bin.
\<close>

theorem C3_coarser_bins_witness:
  "total \<lparr>index = 0, last_name = ''A'', total = 3, creation = 3, edition = 0, review = 0\<rparr> div 3
     \<le> total \<lparr>index = 0, last_name = ''A'', total = 2, creation = 2, edition = 0, review = 0\<rparr> div 1
   \<and> get_time_invested sort_values_stable example_users example_nodes 3 1 =
     Inr [\<lparr>index = 0, last_name = ''A'', total = 3, creation = 3, edition = 0, review = 0\<rparr>,
          \<lparr>index = 1, last_name = ''B'', total = 3, creation = 0, edition = 3, review = 0\<rparr>]"
proof -
  let ?a1 = "\<lparr>index = 0, last_name = ''A'', total = 2, creation = 2, edition = 0, review = 0\<rparr>"
  let ?b1 = "\<lparr>index = 1, last_name = ''B'', total = 2, creation = 0, edition = 2, review = 0\<rparr>"
  let ?a3 = "\<lparr>index = 0, last_name = ''A'', total = 3, creation = 3, edition = 0, review = 0\<rparr>"
  let ?b3 = "\<lparr>index = 1, last_name = ''B'', total = 3, creation = 0, edition = 3, review = 0\<rparr>"
  have e1: "get_time_invested sort_values_stable example_users example_nodes 1 1 =
              Inr [?a1, ?b1]"
    by code_simp
  have e3: "get_time_invested sort_values_stable example_users example_nodes 3 1 =
              Inr [?a3, ?b3]"
    by code_simp
  have "total ?a3 div 3 \<le> total ?a1 div 1 \<and> creation ?a3 div 3 \<le> creation ?a1 div 1
       \<and> edition ?a3 div 3 \<le> edition ?a1 div 1 \<and> review ?a3 div 3 \<le> review ?a1 div 1"
    by (rule C3_coarser_bins_are_fewer[where sort_values = sort_values_stable,
          OF _ _ _ sort_desc_stable_ok e1 e3]) simp_all
  then show ?thesis using e3 by blast
qed

text \<open>
  The claim as stated fails: on the example, going from \<open>interval = 1\<close> to
  \<open>interval = 2\<close> raises every reported figure from 2 to 4 minutes.
\<close>

theorem C3_counterexample:
  "get_time_invested sort_values_stable example_users example_nodes 1 1 =
     Inr [\<lparr>index = 0, last_name = ''A'', total = 2, creation = 2, edition = 0, review = 0\<rparr>,
          \<lparr>index = 1, last_name = ''B'', total = 2, creation = 0, edition = 2, review = 0\<rparr>]
   \<and> get_time_invested sort_values_stable example_users example_nodes 2 1 =
     Inr [\<lparr>index = 0, last_name = ''A'', total = 4, creation = 4, edition = 0, review = 0\<rparr>,
          \<lparr>index = 1, last_name = ''B'', total = 4, creation = 0, edition = 4, review = 0\<rparr>]"
  by code_simp

text \<open>
  C4 (as amended). Within a view, the bins of a user are anchored at midnight of the day
  of that user's own earliest timestamp in the view: every bin edge lies a whole number
  of bin widths after it. The anchor is a function of the input. When \<open>interval\<close>
  divides 1440, the minutes of a day, every bin edge is a whole multiple of the bin width
  since the epoch, so the bins of all users align.
\<close>

theorem C4_bins_anchored_at_first_midnight:
  assumes "0 < interval" and "lo \<in> set (user_bins interval view u)"
  shows "(interval * minute_nanos) dvd (lo - normalize (Min (set (user_timestamps view u))))
       \<and> (interval dvd 1440 \<longrightarrow> (interval * minute_nanos) dvd lo)"
proof (intro conjI impI)
  have w: "0 < interval * minute_nanos" using assms(1) by (simp add: minute_nanos_def)
  have lo: "lo \<in> set (time_grouper_labels (interval * minute_nanos) (user_timestamps view u))"
    using assms(2) by (simp add: user_bins_def)
  show "(interval * minute_nanos) dvd (lo - normalize (Min (set (user_timestamps view u))))"
    using w lo by (rule label_anchored)
  assume "interval dvd 1440"
  then have "interval * minute_nanos dvd day_nanos" by (rule width_dvd_day)
  with w show "(interval * minute_nanos) dvd lo" using lo by (rule label_epoch_aligned)
qed

text \<open>
  Five-minute bins: the bins of user 1 start at 23:50, 23:55 and 00:00, all multiples of
  five minutes since the epoch.
\<close>

theorem C4_five_minute_bins_witness:
  "user_bins 5 (creation_timestamps midnight_nodes) 1 =
     [at_minute 1430, at_minute 1435, at_minute 1440]
   \<and> (5 * minute_nanos) dvd
       (at_minute 1435 - normalize (Min (set (user_timestamps (creation_timestamps midnight_nodes) 1))))
   \<and> (5 * minute_nanos) dvd at_minute 1435"
proof -
  have bins: "user_bins 5 (creation_timestamps midnight_nodes) 1 =
                [at_minute 1430, at_minute 1435, at_minute 1440]"
    by code_simp
  then have "at_minute 1435 \<in> set (user_bins 5 (creation_timestamps midnight_nodes) 1)"
    by simp
  from C4_bins_anchored_at_first_midnight[OF _ this] bins show ?thesis by simp
qed

text \<open>
  The claim as stated fails: with seven-minute bins the bins of user 1 start at 23:48
  and 23:55, the bin of user 2 starts at 00:00, five minutes after an edge of user 1.
\<close>

theorem C4_counterexample:
  "user_bins 7 (creation_timestamps midnight_nodes) 1 = [at_minute 1428, at_minute 1435]
   \<and> user_bins 7 (creation_timestamps midnight_nodes) 2 = [at_minute 1440]
   \<and> \<not> (7 * minute_nanos) dvd (at_minute 1440 - at_minute 1435)"
  by code_simp

text \<open>
  C5. The claim is that the total figure of a user is never below any of the user's
  three category figures. The function does not keep it: with seven-minute bins and the
  default \<open>minimum_actions = 1\<close>, on the nodes made around midnight, user 1 is
  reported 21 minutes in total and 28 minutes of creation. The total view is binned from
  midnight of the first day, the creation view from midnight of the second.
\<close>

theorem C5_total_below_creation:
  "get_time_invested sort_values_stable example_users overnight_nodes 7 1 =
     Inr [\<lparr>index = 1, last_name = ''A'', total = 21, creation = 28, edition = 28, review = 7\<rparr>,
          \<lparr>index = 0, last_name = ''B'', total = 7, creation = 7, edition = 7, review = 0\<rparr>]"
  by code_simp

text \<open>
  C7. \<open>get_time_invested\<close> returns a report whenever \<open>interval\<close> is positive, the
  bin width and the timestamps stay within the 64-bit range of pandas and the user list
  knows every user. A report it returns has exactly one row for every user with at least
  one action in any of the three categories: the users of the rows, read through the
  index column, are the users of the concatenated view, each once, and those are the
  creators, editors and reviewers. Each row carries the last name of its user, and a user
  without a row in a category's view has 0 for that category.
\<close>

theorem C7_one_row_per_user_zero_filled:
  assumes "sorts_descending total (sort_values total False)"
  shows "(0 < interval \<and> timestamps_in_range interval node_details
            \<and> (\<forall>u\<in>set (all_users node_details). user_list u \<noteq> None)
            \<longrightarrow> (\<exists>report. get_time_invested sort_values user_list node_details interval
                   minimum_actions = Inr report))
       \<and> (\<forall>report.
            get_time_invested sort_values user_list node_details interval minimum_actions
              = Inr report \<longrightarrow>
            distinct (all_users node_details)
          \<and> set (all_users node_details) =
              fst ` set (creation_timestamps node_details)
                \<union> fst ` set (edition_timestamps node_details)
                \<union> fst ` set (review_timestamps node_details)
          \<and> mset (map (\<lambda>r. all_users node_details ! index r) report)
              = mset (all_users node_details)
          \<and> (\<forall>r\<in>set report.
                user_list (all_users node_details ! index r) = Some (last_name r)
              \<and> (all_users node_details ! index r \<notin> fst ` set (creation_timestamps node_details)
                   \<longrightarrow> creation r = 0)
              \<and> (all_users node_details ! index r \<notin> fst ` set (edition_timestamps node_details)
                   \<longrightarrow> edition r = 0)
              \<and> (all_users node_details ! index r \<notin> fst ` set (review_timestamps node_details)
                   \<longrightarrow> review r = 0)))"
proof (intro conjI allI impI ballI)
  assume "0 < interval \<and> timestamps_in_range interval node_details
            \<and> (\<forall>u\<in>set (all_users node_details). user_list u \<noteq> None)"
  then show "\<exists>report. get_time_invested sort_values user_list node_details interval
                   minimum_actions = Inr report"
    using get_time_invested_known[where interval = interval and nd = node_details
        and ul = user_list and sv = sort_values and m = minimum_actions]
    by blast
next
  show "distinct (all_users node_details)" by (rule distinct_all_users)
  show "set (all_users node_details) =
           fst ` set (creation_timestamps node_details)
             \<union> fst ` set (edition_timestamps node_details)
             \<union> fst ` set (review_timestamps node_details)"
    by (rule all_users_set)
next
  fix report
  assume "get_time_invested sort_values user_list node_details interval minimum_actions
            = Inr report"
  with assms show "mset (map (\<lambda>r. all_users node_details ! index r) report)
          = mset (all_users node_details)"
    by (rule report_users)
next
  fix report r
  assume "get_time_invested sort_values user_list node_details interval minimum_actions
            = Inr report"
    and "r \<in> set report"
  then have row: "r = row_of (view_minutes interval minimum_actions) user_list node_details
                      (index r, all_users node_details ! index r)
                \<and> user_list (all_users node_details ! index r) = Some (last_name r)"
    using report_row[where sv = sort_values, OF assms] by simp
  then have r: "r = row_of (view_minutes interval minimum_actions) user_list node_details
                      (index r, all_users node_details ! index r)"
    by simp
  show "user_list (all_users node_details ! index r) = Some (last_name r)"
    using row by simp
  {
    assume "all_users node_details ! index r \<notin> fst ` set (creation_timestamps node_details)"
    then show "creation r = 0" by (subst r) (simp add: row_of_def view_minutes_absent)
  next
    assume "all_users node_details ! index r \<notin> fst ` set (edition_timestamps node_details)"
    then show "edition r = 0" by (subst r) (simp add: row_of_def view_minutes_absent)
  next
    assume "all_users node_details ! index r \<notin> fst ` set (review_timestamps node_details)"
    then show "review r = 0" by (subst r) (simp add: row_of_def view_minutes_absent)
  }
qed

text \<open>
  On the nodes made around midnight the report has a row for user 1 and a row for
  user 2, who reviewed nothing and is reported 0 minutes of review.
\<close>

theorem C7_zero_fill_witness:
  "get_time_invested sort_values_stable example_users overnight_nodes 5 1 =
     Inr [\<lparr>index = 1, last_name = ''A'', total = 15, creation = 10, edition = 10, review = 5\<rparr>,
          \<lparr>index = 0, last_name = ''B'', total = 5, creation = 5, edition = 5, review = 0\<rparr>]
   \<and> all_users overnight_nodes = [2, 1]
   \<and> mset (map (\<lambda>r. all_users overnight_nodes ! index r)
        [\<lparr>index = 1, last_name = ''A'', total = 15, creation = 10, edition = 10, review = 5\<rparr>,
         \<lparr>index = 0, last_name = ''B'', total = 5, creation = 5, edition = 5, review = 0\<rparr>])
       = mset (all_users overnight_nodes)
   \<and> 2 \<notin> fst ` set (review_timestamps overnight_nodes)"
proof -
  let ?a = "\<lparr>index = 1, last_name = ''A'', total = 15, creation = 10, edition = 10, review = 5\<rparr>"
  let ?b = "\<lparr>index = 0, last_name = ''B'', total = 5, creation = 5, edition = 5, review = 0\<rparr>"
  have e: "get_time_invested sort_values_stable example_users overnight_nodes 5 1 =
             Inr [?a, ?b]"
    by code_simp
  have u: "all_users overnight_nodes = [2, 1]" by code_simp
  have n: "2 \<notin> fst ` set (review_timestamps overnight_nodes)" by code_simp
  from C7_one_row_per_user_zero_filled[where sort_values = sort_values_stable
      and interval = 5 and node_details = overnight_nodes and user_list = example_users
      and minimum_actions = 1, OF sort_desc_stable_ok] e
  have "mset (map (\<lambda>r. all_users overnight_nodes ! index r) [?a, ?b])
          = mset (all_users overnight_nodes)"
    by blast
  with e u n show ?thesis by blast
qed

text \<open>
  C8. On an empty collection of records \<open>get_time_invested\<close> returns a report with
  no rows and raises nothing, for every value of the two parameters.
\<close>

theorem C8_empty_input_empty_report:
  assumes "sorts_descending total (sort_values total False)"
  shows "get_time_invested sort_values user_list [] interval minimum_actions = Inr []"
  using assms by (simp add: get_time_invested_Nil sorts_descending_Nil)

theorem C8_empty_input_witness:
  "get_time_invested sort_values_stable example_users [] 1 1 = Inr []"
  by (rule C8_empty_input_empty_report[where sort_values = sort_values_stable,
        OF sort_desc_stable_ok])

text \<open>
  C10. \<open>get_user_contributions\<close> returns a frame whenever every key converts to a
  user id that the user list knows, and a frame it returns has exactly one row per user
  that is a key of the node, presynapse or postsynapse contributor dictionary (the users
  of the rows, read through the position column, are those keys, each once); each row
  carries the last name of its user and the user's count from each dictionary, 0 where
  the user is not a key; and the rows are sorted by node count in descending order.
\<close>

theorem C10_one_row_per_contributor_sorted:
  assumes "iterates_set set_order" and "sorts_by_key sort_values"
    and "users = contributors_of set_order node_contributors pre_contributors post_contributors"
  shows "((\<forall>u\<in>set users. \<exists>uid. py_int u = Some uid \<and> user_list uid \<noteq> None) \<longrightarrow>
            (\<exists>report. get_user_contributions set_order py_int sort_values user_list
                 node_contributors pre_contributors post_contributors = Inr report))
       \<and> (\<forall>report.
            get_user_contributions set_order py_int sort_values user_list node_contributors
              pre_contributors post_contributors = Inr report \<longrightarrow>
            distinct users
          \<and> set users = fst ` set node_contributors \<union> fst ` set pre_contributors
                          \<union> fst ` set post_contributors
          \<and> mset (map (\<lambda>r. users ! position r) report) = mset users
          \<and> (\<forall>r\<in>set report.
                (\<exists>uid. py_int (users ! position r) = Some uid
                       \<and> user_list uid = Some (contributor r))
              \<and> nodes r = count_or_zero node_contributors (users ! position r)
              \<and> presynapses r = count_or_zero pre_contributors (users ! position r)
              \<and> postsynapses r = count_or_zero post_contributors (users ! position r))
          \<and> sorted_wrt (\<lambda>a b. nodes b \<le> nodes a) report)"
proof (intro conjI allI impI)
  assume "\<forall>u\<in>set users. \<exists>uid. py_int u = Some uid \<and> user_list uid \<noteq> None"
  then show "\<exists>report. get_user_contributions set_order py_int sort_values user_list
                 node_contributors pre_contributors post_contributors = Inr report"
    unfolding assms(3) using assms(1) by (intro get_user_contributions_returns)
next
  fix report
  assume returned: "get_user_contributions set_order py_int sort_values user_list
      node_contributors pre_contributors post_contributors = Inr report"
  let ?P = "\<lambda>r p. position r = fst p
             \<and> (\<exists>uid. py_int (snd p) = Some uid \<and> user_list uid = Some (contributor r))
             \<and> nodes r = count_or_zero node_contributors (snd p)
             \<and> presynapses r = count_or_zero pre_contributors (snd p)
             \<and> postsynapses r = count_or_zero post_contributors (snd p)"
  from assms(1) returned obtain rows where rep: "report = sort_values nodes False rows"
    and rows: "list_all2 ?P rows (enumerate 0 users)"
    unfolding assms(3) by (rule get_user_contributions_Inr)
  have desc: "sorts_descending nodes (sort_values nodes False)"
    using assms(2) by (rule sorts_by_key_descending)
  have d: "distinct users"
    and s: "set users = fst ` set node_contributors \<union> fst ` set pre_contributors
                          \<union> fst ` set post_contributors"
    unfolding assms(3) using set_contributors_of[OF assms(1)] by blast+
  have len: "length rows = length users"
    using rows by (simp add: list_all2_lengthD)
  have at: "?P (rows ! k) (k, users ! k)" if "k < length users" for k
    using list_all2_nthD[OF rows, of k] that len by (simp add: nth_enumerate_eq)
  have each: "(\<exists>uid. py_int (users ! position r) = Some uid
                       \<and> user_list uid = Some (contributor r))
       \<and> nodes r = count_or_zero node_contributors (users ! position r)
       \<and> presynapses r = count_or_zero pre_contributors (users ! position r)
       \<and> postsynapses r = count_or_zero post_contributors (users ! position r)"
    if "r \<in> set rows" for r
  proof -
    from that obtain k where k: "k < length rows" "rows ! k = r"
      by (auto simp: in_set_conv_nth)
    with at[of k] len show ?thesis by auto
  qed
  have us: "map (\<lambda>r. users ! position r) rows = users"
  proof (rule nth_equalityI)
    show "length (map (\<lambda>r. users ! position r) rows) = length users" using len by simp
    fix k assume "k < length (map (\<lambda>r. users ! position r) rows)"
    then have "k < length users" using len by simp
    with at[of k] len show "map (\<lambda>r. users ! position r) rows ! k = users ! k" by simp
  qed
  have "mset (map (\<lambda>r. users ! position r) report) =
          image_mset (\<lambda>r. users ! position r) (mset (sort_values nodes False rows))"
    by (simp add: rep)
  also have "\<dots> = image_mset (\<lambda>r. users ! position r) (mset rows)"
    using desc by (simp only: sorts_descending_mset)
  also have "\<dots> = mset (map (\<lambda>r. users ! position r) rows)" by simp
  finally have m: "mset (map (\<lambda>r. users ! position r) report) = mset users"
    by (simp only: us)
  have "set report = set rows" using desc rep by (simp add: sorts_descending_set)
  then have b: "\<forall>r\<in>set report.
             (\<exists>uid. py_int (users ! position r) = Some uid
                    \<and> user_list uid = Some (contributor r))
           \<and> nodes r = count_or_zero node_contributors (users ! position r)
           \<and> presynapses r = count_or_zero pre_contributors (users ! position r)
           \<and> postsynapses r = count_or_zero post_contributors (users ! position r)"
    using each by blast
  have st: "sorted_wrt (\<lambda>a b. nodes b \<le> nodes a) report"
    unfolding rep using desc by (rule sorts_descending_sorted)
  show "distinct users" by (rule d)
  show "set users = fst ` set node_contributors \<union> fst ` set pre_contributors
                          \<union> fst ` set post_contributors" by (rule s)
  show "mset (map (\<lambda>r. users ! position r) report) = mset users" by (rule m)
  show "\<forall>r\<in>set report.
             (\<exists>uid. py_int (users ! position r) = Some uid
                    \<and> user_list uid = Some (contributor r))
           \<and> nodes r = count_or_zero node_contributors (users ! position r)
           \<and> presynapses r = count_or_zero pre_contributors (users ! position r)
           \<and> postsynapses r = count_or_zero post_contributors (users ! position r)"
    by (rule b)
  show "sorted_wrt (\<lambda>a b. nodes b \<le> nodes a) report" by (rule st)
qed

text \<open>
  Three users on the example dictionaries: user 2 with 30 nodes first, then user 1 with
  10 nodes and 2 presynapses, then user 3, who is only a key of the postsynapse
  dictionary and has 0 nodes.
\<close>

theorem C10_contributions_witness:
  "get_user_contributions remdups example_int sort_values_stable example_users
     example_node_contributors example_pre_contributors example_post_contributors =
     Inr [\<lparr>position = 0, contributor = ''B'', nodes = 30, presynapses = 0, postsynapses = 0\<rparr>,
          \<lparr>position = 1, contributor = ''A'', nodes = 10, presynapses = 2, postsynapses = 0\<rparr>,
          \<lparr>position = 2, contributor = ''C'', nodes = 0, presynapses = 0, postsynapses = 4\<rparr>]
   \<and> contributors_of remdups example_node_contributors example_pre_contributors
        example_post_contributors = [''2'', ''1'', ''3'']
   \<and> sorted_wrt (\<lambda>a b. nodes b \<le> nodes a)
        [\<lparr>position = 0, contributor = ''B'', nodes = 30, presynapses = 0, postsynapses = 0\<rparr>,
         \<lparr>position = 1, contributor = ''A'', nodes = 10, presynapses = 2, postsynapses = 0\<rparr>,
         \<lparr>position = 2, contributor = ''C'', nodes = 0, presynapses = 0, postsynapses = 4\<rparr>]"
proof -
  let ?rep = "[\<lparr>position = 0, contributor = ''B'', nodes = 30, presynapses = 0, postsynapses = 0\<rparr>,
         \<lparr>position = 1, contributor = ''A'', nodes = 10, presynapses = 2, postsynapses = 0\<rparr>,
         \<lparr>position = 2, contributor = ''C'', nodes = 0, presynapses = 0, postsynapses = 4\<rparr>]"
  have e: "get_user_contributions remdups example_int sort_values_stable example_users
     example_node_contributors example_pre_contributors example_post_contributors = Inr ?rep"
    by code_simp
  have u: "contributors_of remdups example_node_contributors example_pre_contributors
        example_post_contributors = [''2'', ''1'', ''3'']"
    by code_simp
  from C10_one_row_per_contributor_sorted[OF iterates_set_remdups sort_values_stable_ok refl,
      where py_int = example_int and user_list = example_users
        and node_contributors = example_node_contributors
        and pre_contributors = example_pre_contributors
        and post_contributors = example_post_contributors] e
  have "sorted_wrt (\<lambda>a b. nodes b \<le> nodes a) ?rep" by blast
  with e u show ?thesis by blast
qed

end
